theory Spec2Isabelle
  imports Complex_Main "HOL-Library.Sublist"
begin

section \<open>Strings\<close>

text \<open>
  A JavaScript string is a sequence of UTF-16 code units. Regular expressions without the
  \<open>u\<close> flag, \<open>length\<close>, \<open>substring\<close> and \<open>trim\<close> all work on code units, so a string is
  modelled as the list of its code units.
\<close>

type_synonym jschar = nat
type_synonym jsstring = "jschar list"

definition js :: "string \<Rightarrow> jsstring" where
  \<comment> \<open>an ASCII literal as a JavaScript string\<close>
  "js s = map of_char s"

definition isSpace :: "jschar \<Rightarrow> bool" where
  \<comment> \<open>the class \<open>\s\<close>, which is also what \<open>trim\<close> strips: WhiteSpace and LineTerminator\<close>
  "isSpace c \<longleftrightarrow>
     (0x09 \<le> c \<and> c \<le> 0x0D) \<or> c = 0x20 \<or> c = 0xA0 \<or> c = 0x1680 \<or>
     (0x2000 \<le> c \<and> c \<le> 0x200A) \<or> c = 0x2028 \<or> c = 0x2029 \<or> c = 0x202F \<or>
     c = 0x205F \<or> c = 0x3000 \<or> c = 0xFEFF"

definition trim :: "jsstring \<Rightarrow> jsstring" where
  "trim s = rev (dropWhile isSpace (rev (dropWhile isSpace s)))"

section \<open>cleanTextForTTS\<close>

definition isControl :: "jschar \<Rightarrow> bool" where
  \<comment> \<open>\<open>[\x00-\x1F\x7F-\x9F]\<close>\<close>
  "isControl c \<longleftrightarrow> c \<le> 0x1F \<or> (0x7F \<le> c \<and> c \<le> 0x9F)"

definition isDecoration :: "jschar \<Rightarrow> bool" where
  \<comment> \<open>the eighteen glyphs of the second \<open>replace\<close>, in the order of the source\<close>
  "isDecoration c \<longleftrightarrow>
     c \<in> set [0x203B, 0x25B6, 0x25A3, 0x25C8, 0x25C6, 0x25B7, 0x25A0, 0x25A1, 0x25CB,
              0x25CF, 0x25CE, 0x25C7, 0x25BD, 0x25BC, 0x25B2, 0x25B3, 0x25C0, 0x25C1]"

definition removeControl :: "jsstring \<Rightarrow> jsstring" where
  "removeControl s = filter (\<lambda>c. \<not> isControl c) s"

definition blankDecoration :: "jsstring \<Rightarrow> jsstring" where
  "blankDecoration s = map (\<lambda>c. if isDecoration c then 0x20 else c) s"

text \<open>
  \<open>replace(/P([^\s]|$)/g, "P $1")\<close> and, with \<open>atEnd = False\<close>, \<open>replace(/P([^\s])/g, "P $1")\<close>.
  A match takes the mark and the character after it, so the scan resumes behind that character:
  the character captured as \<open>$1\<close> is never the start of a match.
\<close>

fun spaceAfter :: "bool \<Rightarrow> jschar \<Rightarrow> jsstring \<Rightarrow> jsstring" where
  "spaceAfter atEnd p [] = []"
| "spaceAfter atEnd p [c] = (if c = p \<and> atEnd then [p, 0x20] else [c])"
| "spaceAfter atEnd p (c # d # s) =
     (if c = p \<and> \<not> isSpace d then p # 0x20 # d # spaceAfter atEnd p s
      else c # spaceAfter atEnd p (d # s))"

text \<open>
  \<open>replace(/P{n,}/g, r)\<close>: every maximal run of at least \<open>n\<close> copies of \<open>P\<close> becomes \<open>r\<close>.
  \<open>k\<close> is the length of the run read so far.
\<close>

definition flushRun :: "jschar \<Rightarrow> nat \<Rightarrow> jsstring \<Rightarrow> nat \<Rightarrow> jsstring" where
  "flushRun p n r k = (if n \<le> k then r else replicate k p)"

fun collapseFrom :: "jschar \<Rightarrow> nat \<Rightarrow> jsstring \<Rightarrow> nat \<Rightarrow> jsstring \<Rightarrow> jsstring" where
  "collapseFrom p n r k [] = flushRun p n r k"
| "collapseFrom p n r k (c # s) =
     (if c = p then collapseFrom p n r (Suc k) s
      else flushRun p n r k @ c # collapseFrom p n r 0 s)"

definition collapseRuns :: "jschar \<Rightarrow> nat \<Rightarrow> jsstring \<Rightarrow> jsstring \<Rightarrow> jsstring" where
  "collapseRuns p n r s = collapseFrom p n r 0 s"

definition straightDouble :: "jsstring \<Rightarrow> jsstring" where
  \<comment> \<open>the class of the source holds U+0022 (twice), U+FF02 and U+201E\<close>
  "straightDouble s = map (\<lambda>c. if c \<in> set [0x22, 0x22, 0xFF02, 0x201E] then 0x22 else c) s"

definition straightSingle :: "jsstring \<Rightarrow> jsstring" where
  \<comment> \<open>the class of the source holds U+0027 (twice), U+2018 and U+2019\<close>
  "straightSingle s = map (\<lambda>c. if c \<in> set [0x27, 0x27, 0x2018, 0x2019] then 0x27 else c) s"

definition cleanTextForTTS :: "jsstring \<Rightarrow> jsstring" where
  "cleanTextForTTS text =
     trim (straightSingle (straightDouble (
       collapseRuns 0x2E 4 [0x2E, 0x2E, 0x2E] (
       collapseRuns 0x3F 3 [0x3F, 0x3F] (
       collapseRuns 0x21 3 [0x21, 0x21] (
       collapseRuns 0x0A 3 [0x0A, 0x0A] (
       spaceAfter False 0x2C (
       spaceAfter True 0x21 (
       spaceAfter True 0x3F (
       spaceAfter True 0x2E (
       blankDecoration (removeControl text))))))))))))"

section \<open>splitTextIntoChunks\<close>

definition isDelimiter :: "jschar \<Rightarrow> bool" where
  \<comment> \<open>\<open>[.\n?!]\<close>\<close>
  "isDelimiter c \<longleftrightarrow> c = 0x2E \<or> c = 0x0A \<or> c = 0x3F \<or> c = 0x21"

text \<open>
  \<open>split(/([.\n?!])\s*/)\<close>: the text before each delimiter, then the captured delimiter as an
  element of its own; the white space after the delimiter belongs to the match and is dropped.
  \<open>piece\<close> is the text read since the last match. The last piece is always returned, also when
  it is empty.
\<close>

function splitSegments :: "jsstring \<Rightarrow> jsstring \<Rightarrow> jsstring list" where
  "splitSegments piece [] = [piece]"
| "splitSegments piece (c # s) =
     (if isDelimiter c then piece # [c] # splitSegments [] (dropWhile isSpace s)
      else splitSegments (piece @ [c]) s)"
  by pat_completeness auto
termination
  by (relation "measure (\<lambda>(piece, s). length s)")
     (auto simp: le_imp_less_Suc length_dropWhile_le)

text \<open>
  The loop over the segments. The state is the pair of \<open>chunks\<close> and \<open>currentChunk\<close>;
  \<open>maxChars\<close> is a JavaScript number, here an integer.
\<close>

definition pushTrimmed :: "jsstring list \<Rightarrow> jsstring \<Rightarrow> jsstring list" where
  \<comment> \<open>\<open>if (currentChunk.trim()) chunks.push(currentChunk.trim())\<close>\<close>
  "pushTrimmed chunks cur = (if trim cur \<noteq> [] then chunks @ [trim cur] else chunks)"

fun chunkLoop :: "int \<Rightarrow> jsstring list \<Rightarrow> jsstring \<Rightarrow> jsstring list \<Rightarrow> jsstring list \<times> jsstring" where
  "chunkLoop maxChars chunks cur [] = (chunks, cur)"
| "chunkLoop maxChars chunks cur (seg # segs) =
     (if seg = [] then chunkLoop maxChars chunks cur segs
      else if int (length cur) + int (length seg) > maxChars
        then chunkLoop maxChars (pushTrimmed chunks cur) seg segs
        else chunkLoop maxChars chunks (cur @ seg) segs)"

definition splitTextIntoChunks :: "jsstring \<Rightarrow> int \<Rightarrow> jsstring list" where
  "splitTextIntoChunks text maxChars =
     (let cleanedText = cleanTextForTTS text;
          segments = splitSegments [] cleanedText;
          (chunks, currentChunk) = chunkLoop maxChars [] [] segments
      in pushTrimmed chunks currentChunk)"

section \<open>Errors\<close>

datatype jsError =
    RangeError \<comment> \<open>a \<open>DataView\<close> access out of bounds, an \<open>Int16Array\<close> over an odd number of bytes\<close>
  | NotSupportedError \<comment> \<open>\<open>createBuffer\<close> with no channel or no frame\<close>
  | InvalidCharacterError \<comment> \<open>\<open>atob\<close> on a string that is not base64\<close>
  | NoAudioData \<comment> \<open>the \<open>Error\<close> thrown by \<open>generateTTS\<close> itself\<close>
  | ServiceError \<comment> \<open>a rejected call to the generative service\<close>

section \<open>Bytes and the DataView\<close>

text \<open>
  A byte is a number below 256; each write reduces its value modulo the width, as
  \<open>ToUint8\<close>, \<open>ToUint16\<close>, \<open>ToUint32\<close> and \<open>ToInt16\<close> do. All writes of the encoder are
  little-endian.
\<close>

type_synonym byte = nat

primrec leBytes :: "nat \<Rightarrow> nat \<Rightarrow> byte list" where
  "leBytes 0 v = []"
| "leBytes (Suc k) v = (v mod 256) # leBytes k (v div 256)"

text \<open>A write is an offset and the bytes stored from there on.\<close>

type_synonym dvWrite = "nat \<times> byte list"

definition setUint8 :: "nat \<Rightarrow> nat \<Rightarrow> dvWrite" where
  "setUint8 offset v = (offset, leBytes 1 v)"

definition setUint16 :: "nat \<Rightarrow> nat \<Rightarrow> dvWrite" where
  "setUint16 offset v = (offset, leBytes 2 v)"

definition setUint32 :: "nat \<Rightarrow> nat \<Rightarrow> dvWrite" where
  "setUint32 offset v = (offset, leBytes 4 v)"

definition applyWrite :: "dvWrite \<Rightarrow> byte list \<Rightarrow> jsError + byte list" where
  \<comment> \<open>a write that does not fit the buffer throws\<close>
  "applyWrite w view =
     (if fst w + length (snd w) \<le> length view
      then Inr (take (fst w) view @ snd w @ drop (fst w + length (snd w)) view)
      else Inl RangeError)"

fun runWrites :: "dvWrite list \<Rightarrow> byte list \<Rightarrow> jsError + byte list" where
  "runWrites [] view = Inr view"
| "runWrites (w # ws) view =
     (case applyWrite w view of Inl e \<Rightarrow> Inl e | Inr view' \<Rightarrow> runWrites ws view')"

definition writeString :: "nat \<Rightarrow> jsstring \<Rightarrow> dvWrite list" where
  \<comment> \<open>\<open>for (i ...) view.setUint8(offset + i, string.charCodeAt(i))\<close>\<close>
  "writeString offset string = map (\<lambda>i. setUint8 (offset + i) (string ! i)) [0..<length string]"

section \<open>Samples\<close>

text \<open>
  An element of a \<open>Float32Array\<close>. A finite sample is the rational number it denotes. The
  encoder compares it with 0, 1 and -1 and multiplies it by \<open>0x8000\<close> or \<open>0x7FFF\<close> in double
  precision; the product of a 24-bit significand with a 15-bit integer is exact there, so
  exact arithmetic on the rational is what the code computes.
\<close>

datatype sample = NaN | NegInfinity | PosInfinity | Finite rat

fun clampSample :: "sample \<Rightarrow> sample" where
  \<comment> \<open>\<open>Math.max(-1, Math.min(1, x))\<close>\<close>
  "clampSample NaN = NaN"
| "clampSample NegInfinity = Finite (- 1)"
| "clampSample PosInfinity = Finite 1"
| "clampSample (Finite r) = Finite (max (- 1) (min 1 r))"

fun scaleSample :: "sample \<Rightarrow> sample" where
  \<comment> \<open>\<open>sample < 0 ? sample * 0x8000 : sample * 0x7FFF\<close>\<close>
  "scaleSample NaN = NaN"
| "scaleSample NegInfinity = NegInfinity"
| "scaleSample PosInfinity = PosInfinity"
| "scaleSample (Finite r) = Finite (if r < 0 then r * 0x8000 else r * 0x7FFF)"

definition truncToZero :: "rat \<Rightarrow> int" where
  \<comment> \<open>rounding towards zero\<close>
  "truncToZero r = (if r < 0 then - \<lfloor>- r\<rfloor> else \<lfloor>r\<rfloor>)"

fun toInt16 :: "sample \<Rightarrow> nat" where
  \<comment> \<open>\<open>ToInt16\<close>, as the 16 bits stored: not a number and the infinities give 0\<close>
  "toInt16 (Finite r) = nat (truncToZero r mod 0x10000)"
| "toInt16 NaN = 0"
| "toInt16 NegInfinity = 0"
| "toInt16 PosInfinity = 0"

definition setInt16 :: "nat \<Rightarrow> sample \<Rightarrow> dvWrite" where
  "setInt16 offset v = (offset, leBytes 2 (toInt16 v))"

section \<open>audioBufferToWav\<close>

text \<open>
  An \<open>AudioBuffer\<close>: its sample rate, its length in frames and the data of its channels.
  \<open>numberOfChannels\<close> is the number of channel arrays. The rate is a whole number of hertz
  (the program only ever builds buffers at 24000).
\<close>

record AudioBuffer =
  sampleRate :: nat
  frames :: nat
  channelData :: "sample list list"

definition numberOfChannels :: "AudioBuffer \<Rightarrow> nat" where
  "numberOfChannels buffer = length (channelData buffer)"

definition sampleAt :: "AudioBuffer \<Rightarrow> nat \<Rightarrow> nat \<Rightarrow> sample" where
  \<comment> \<open>\<open>buffer.getChannelData(channel)[i]\<close>; reading past the end of the array gives
     \<open>undefined\<close>, which \<open>Math.min\<close> turns into \<open>NaN\<close>\<close>
  "sampleAt buffer channel i =
     (if channel < length (channelData buffer) \<and> i < length (channelData buffer ! channel)
      then channelData buffer ! channel ! i else NaN)"

definition sampleWrites :: "AudioBuffer \<Rightarrow> dvWrite list" where
  "sampleWrites buffer =
     (let numChannels = numberOfChannels buffer;
          bytesPerSample = 16 div 8;
          blockAlign = numChannels * bytesPerSample
      in concat (map (\<lambda>i. map (\<lambda>channel.
           setInt16 (44 + i * blockAlign + channel * bytesPerSample)
                    (scaleSample (clampSample (sampleAt buffer channel i))))
           [0..<numChannels]) [0..<frames buffer]))"

definition headerWrites :: "AudioBuffer \<Rightarrow> dvWrite list" where
  \<comment> \<open>the writes of the 44-byte header, in the order of the source\<close>
  "headerWrites buffer =
     (let numChannels = numberOfChannels buffer;
          format = 1;
          bitDepth = 16;
          bytesPerSample = bitDepth div 8;
          blockAlign = numChannels * bytesPerSample;
          len = frames buffer * blockAlign
      in writeString 0 (js ''RIFF'') @
         [setUint32 4 (36 + len)] @
         writeString 8 (js ''WAVE'') @
         writeString 12 (js ''fmt '') @
         [setUint32 16 16,
          setUint16 20 format,
          setUint16 22 numChannels,
          setUint32 24 (sampleRate buffer),
          setUint32 28 (sampleRate buffer * blockAlign),
          setUint16 32 blockAlign,
          setUint16 34 bitDepth] @
         writeString 36 (js ''data'') @
         [setUint32 40 len])"

definition audioBufferToWav :: "AudioBuffer \<Rightarrow> jsError + byte list" where
  \<comment> \<open>the result is the content of the \<open>Blob\<close>\<close>
  "audioBufferToWav buffer =
     (let blockAlign = numberOfChannels buffer * (16 div 8);
          len = frames buffer * blockAlign;
          view = replicate (44 + len) 0
      in runWrites (headerWrites buffer @ sampleWrites buffer) view)"

section \<open>decodeAudioData\<close>

definition signed16 :: "nat \<Rightarrow> int" where
  "signed16 v = (if v < 0x8000 then int v else int v - 0x10000)"

fun int16Array :: "byte list \<Rightarrow> int list" where
  \<comment> \<open>\<open>new Int16Array(data.buffer)\<close> on a little-endian machine\<close>
  "int16Array (lo # hi # rest) = signed16 (lo + 256 * hi) # int16Array rest"
| "int16Array rest = []"

text \<open>
  \<open>frameCount\<close> is the quotient \<open>dataInt16.length / numChannels\<close>; \<open>createBuffer\<close> truncates
  it to a whole number of frames and refuses zero channels or zero frames. Every index
  \<open>i * numChannels + channel\<close> read for a frame of the buffer lies inside \<open>dataInt16\<close>. The
  quotient by 32768 is exact in single precision.
\<close>

definition decodeAudioData :: "byte list \<Rightarrow> nat \<Rightarrow> nat \<Rightarrow> jsError + AudioBuffer" where
  "decodeAudioData data rate numChannels =
     (if odd (length data) then Inl RangeError
      else let dataInt16 = int16Array data;
               frameCount = length dataInt16 div numChannels
           in if numChannels = 0 \<or> frameCount = 0 then Inl NotSupportedError
              else Inr \<lparr> sampleRate = rate, frames = frameCount,
                         channelData = map (\<lambda>channel. map (\<lambda>i.
                           Finite (of_int (dataInt16 ! (i * numChannels + channel)) / 32768))
                           [0..<frameCount]) [0..<numChannels] \<rparr>)"

text \<open>The buffer of the encoder example: two mono frames, 1.0 and -1.0, at 24000 Hz.\<close>

definition exampleBuffer :: AudioBuffer where
  "exampleBuffer = \<lparr> sampleRate = 24000, frames = 2, channelData = [[Finite 1, Finite (- 1)]] \<rparr>"

section \<open>The generative service\<close>

datatype VoiceName = Kore | Puck | Charon | Fenrir | Zephyr

text \<open>
  What the program obtains from outside: the two calls to the generative service, each of
  which is rejected or answers with a text (or base64 payload) that may be missing, and two
  functions of the browser. \<open>atob\<close> returns the decoded binary string.
\<close>

record Services =
  generateContent :: "jsstring \<Rightarrow> jsError + jsstring option"
  generateSpeech :: "jsstring \<Rightarrow> VoiceName \<Rightarrow> jsError + jsstring option"
  atob :: "jsstring \<Rightarrow> jsError + jsstring"
  createObjectURL :: "byte list \<Rightarrow> jsstring"

definition reflowPrompt :: jsstring where
  \<comment> \<open>the template literal of \<open>restructureTextWithAI\<close> in front of the text\<close>
  "reflowPrompt =
     [51060, 32, 44544, 51032, 32, 47928, 47589, 51012, 32, 48516, 49437, 54644, 49436, 32,
      45229, 46021, 54616, 44592, 32, 51339, 44172, 32, 45800, 46973, 40, 80, 97, 114, 97,
      103, 114, 97, 112, 104, 41, 51012, 32, 45208, 45572, 44256, 32, 51088, 50672, 49828,
      47084, 50868, 32, 51460, 48148, 45000, 51012, 32, 51116, 44396, 49457, 54644, 51480,
      46, 10, 50896, 47928, 51032, 32, 45236, 50857, 51008, 32, 54620, 32, 44544, 51088,
      46020, 32, 48736, 51664, 50630, 51060, 32, 50976, 51648, 54644, 50556, 32, 54616,
      47728, 44, 32, 50836, 50557, 54616, 51648, 32, 47560, 46, 10, 50724, 51649, 32, 51116,
      44396, 49457, 46108, 32, 53581, 49828, 53944, 47564, 32, 52636, 47141, 54644, 58, 10,
      10]"

definition ttsInstruction :: jsstring where
  \<comment> \<open>the template literal of \<open>generateTTS\<close> in front of the sanitized text\<close>
  "ttsInstruction =
     [52264, 48516, 54616, 44256, 32, 51648, 51201, 51064, 32, 54840, 55137, 51004, 47196,
      44, 32, 47928, 51109, 32, 49324, 51060, 51032, 32, 50668, 50868, 51012, 32, 52649,
      48516, 55176, 32, 46160, 47732, 49436, 32, 51088, 50672, 49828, 47101, 44172, 32,
      51069, 50612, 51452, 49464, 50836, 58, 10, 10]"

definition restructureTextWithAI :: "Services \<Rightarrow> jsstring \<Rightarrow> jsError + jsstring" where
  \<comment> \<open>\<open>response.text || text\<close>: a missing or empty answer gives the text back\<close>
  "restructureTextWithAI svc text =
     (case generateContent svc (reflowPrompt @ text) of
        Inl e \<Rightarrow> Inl e
      | Inr response \<Rightarrow>
          Inr (case response of None \<Rightarrow> text | Some t \<Rightarrow> if t = [] then text else t))"

definition decode :: "Services \<Rightarrow> jsstring \<Rightarrow> jsError + byte list" where
  \<comment> \<open>\<open>bytes[i] = binaryString.charCodeAt(i)\<close> into a \<open>Uint8Array\<close>\<close>
  "decode svc base64 =
     (case atob svc base64 of
        Inl e \<Rightarrow> Inl e
      | Inr binaryString \<Rightarrow> Inr (map (\<lambda>c. c mod 256) binaryString))"

definition synthesisRequest :: "jsstring \<Rightarrow> jsstring" where
  \<comment> \<open>\<open>textWithInstruction\<close>\<close>
  "synthesisRequest text =
     (let sanitizedText = take 4000 (removeControl text)
      in ttsInstruction @ sanitizedText)"

definition generateTTS :: "Services \<Rightarrow> jsstring \<Rightarrow> VoiceName \<Rightarrow> jsError + (byte list \<times> jsstring)" where
  "generateTTS svc text voiceName =
     (case generateSpeech svc (synthesisRequest text) voiceName of
        Inl e \<Rightarrow> Inl e
      | Inr base64Audio \<Rightarrow>
          (case base64Audio of
             None \<Rightarrow> Inl NoAudioData
           | Some b64 \<Rightarrow>
               if b64 = [] then Inl NoAudioData
               else
                 (case decode svc b64 of
                    Inl e \<Rightarrow> Inl e
                  | Inr decodedData \<Rightarrow>
                      (case decodeAudioData decodedData 24000 1 of
                         Inl e \<Rightarrow> Inl e
                       | Inr audioBuffer \<Rightarrow>
                           (case audioBufferToWav audioBuffer of
                              Inl e \<Rightarrow> Inl e
                            | Inr wavBlob \<Rightarrow> Inr (wavBlob, createObjectURL svc wavBlob))))))"

section \<open>handleGenerateTTS\<close>

datatype ChunkStatus = Pending | Analyzing | Generating | Ready | Error

record TextChunk =
  chunk_id :: jsstring
  content :: jsstring
  status :: ChunkStatus
  audioUrl :: "jsstring option"
  fileName :: jsstring
  index :: nat
  progress :: "rat option"

record AppState =
  originalFileName :: "jsstring option"
  chunks :: "TextChunk list"
  selectedVoice :: VoiceName
  lastPlayedChunkId :: "jsstring option"
  lastPlayedTime :: "rat option"

record ExtendedAppState = AppState +
  currentPage :: nat
  playbackRate :: rat
  isAutoNext :: bool

definition updateChunk :: "jsstring \<Rightarrow> (TextChunk \<Rightarrow> TextChunk) \<Rightarrow> ExtendedAppState \<Rightarrow> ExtendedAppState" where
  \<comment> \<open>\<open>setState(prev => ({...prev, chunks: prev.chunks.map(c => c.id === chunkId ? f(c) : c)}))\<close>\<close>
  "updateChunk chunkId f prev =
     prev\<lparr>chunks := map (\<lambda>c. if chunk_id c = chunkId then f c else c) (chunks prev)\<rparr>"

text \<open>
  The handler, run to completion without another event in between. \<open>handlePlay\<close> stands for
  what the function of that name does to the state; it is only reached on the paths that
  return \<open>true\<close>. Everything thrown inside \<open>try\<close> ends in the \<open>catch\<close> branch.
\<close>

definition handleGenerateTTS ::
  "Services \<Rightarrow> (jsstring \<Rightarrow> jsstring \<Rightarrow> ExtendedAppState \<Rightarrow> ExtendedAppState) \<Rightarrow>
   ExtendedAppState \<Rightarrow> jsstring \<Rightarrow> bool \<Rightarrow> ExtendedAppState \<times> bool" where
  "handleGenerateTTS svc handlePlay state chunkId autoPlayAfter =
     (case find (\<lambda>c. chunk_id c = chunkId) (chunks state) of
        None \<Rightarrow> (state, True)
      | Some chunk \<Rightarrow>
          if status chunk = Ready then
            (case audioUrl chunk of
               None \<Rightarrow> (state, True)
             | Some url \<Rightarrow>
                 if autoPlayAfter \<and> url \<noteq> [] then (handlePlay url chunkId state, True)
                 else (state, True))
          else
            (let analyzing = updateChunk chunkId (\<lambda>c. c\<lparr>status := Analyzing\<rparr>) state
             in case restructureTextWithAI svc (content chunk) of
                  Inl err \<Rightarrow> (updateChunk chunkId (\<lambda>c. c\<lparr>status := Error\<rparr>) analyzing, False)
                | Inr restructuredContent \<Rightarrow>
                    (let generating = updateChunk chunkId
                           (\<lambda>c. c\<lparr>content := restructuredContent, status := Generating\<rparr>) analyzing
                     in case generateTTS svc restructuredContent (selectedVoice state) of
                          Inl err \<Rightarrow>
                            (updateChunk chunkId (\<lambda>c. c\<lparr>status := Error\<rparr>) generating, False)
                        | Inr result \<Rightarrow>
                            (let ready = updateChunk chunkId
                                   (\<lambda>c. c\<lparr>status := Ready, audioUrl := Some (snd result)\<rparr>) generating
                             in if autoPlayAfter then (handlePlay (snd result) chunkId ready, True)
                                else (ready, True)))))"

section \<open>Notions used in the statements and proofs\<close>

text \<open>A string is trimmed when neither its first nor its last character is white space.\<close>

definition trimmed :: "jsstring \<Rightarrow> bool" where
  "trimmed s \<longleftrightarrow> s = [] \<or> (\<not> isSpace (hd s) \<and> \<not> isSpace (last s))"

text \<open>The characters of a string that are not white space, in order.\<close>

definition ink :: "jsstring \<Rightarrow> jsstring" where
  "ink s = filter (\<lambda>c. \<not> isSpace c) s"

text \<open>
  A string without the white space that directly follows a delimiter: behind each of
  \<open>.\<close> \<open>?\<close> \<open>!\<close> and the newline the whole run of white space is left out, and nothing
  else is.
\<close>

function withoutSeparatorRuns :: "jsstring \<Rightarrow> jsstring" where
  "withoutSeparatorRuns [] = []"
| "withoutSeparatorRuns (c # s) =
     (if isDelimiter c then c # withoutSeparatorRuns (dropWhile isSpace s)
      else c # withoutSeparatorRuns s)"
  by pat_completeness auto
termination
  by (relation "measure length") (auto simp: le_imp_less_Suc length_dropWhile_le)

text \<open>The strings of a list that are not empty, in order.\<close>

definition nonblank :: "jsstring list \<Rightarrow> jsstring list" where
  "nonblank xs = filter (\<lambda>x. x \<noteq> []) xs"

text \<open>What every section handed out by the chunker looks like.\<close>

definition wellFormedSection :: "jsstring \<Rightarrow> bool" where
  "wellFormedSection c \<longleftrightarrow> c \<noteq> [] \<and> (\<exists>ch\<in>set c. \<not> isSpace ch) \<and> trim c = c"

text \<open>
  A section fits the cap \<open>m\<close>, or it is one segment of \<open>S\<close> that is longer than the cap
  by itself, trimmed.
\<close>

definition fits :: "int \<Rightarrow> jsstring set \<Rightarrow> jsstring \<Rightarrow> bool" where
  "fits m S c \<longleftrightarrow> int (length c) \<le> m \<or> (\<exists>seg\<in>S. m < int (length seg) \<and> c = trim seg)"

text \<open>
  The reading of ``the concatenated sections give back the cleaned text, but for the single
  white space consumed at a split point'': \<open>out\<close> arises from \<open>s\<close> by deleting, directly
  after a delimiter, at most one white-space character. \<open>sep\<close> says that the previous
  character was a delimiter whose separator is not yet consumed.
\<close>

fun dropsSingleSeparators :: "bool \<Rightarrow> jsstring \<Rightarrow> jsstring \<Rightarrow> bool" where
  "dropsSingleSeparators sep [] [] = True"
| "dropsSingleSeparators sep (y # out) [] = False"
| "dropsSingleSeparators sep out (x # s) =
     ((sep \<and> isSpace x \<and> dropsSingleSeparators False out s) \<or>
      (case out of [] \<Rightarrow> False
       | y # out' \<Rightarrow> y = x \<and> dropsSingleSeparators (isDelimiter x) out' s))"


text \<open>
  Notions for the fixed points of the cleaner. The marks are the four characters behind which
  a blank is inserted; \<open>adjacent s\<close> is the set of pairs of neighbouring characters of \<open>s\<close>.
\<close>

definition isMark :: "jschar \<Rightarrow> bool" where
  "isMark c \<longleftrightarrow> c = 0x2E \<or> c = 0x3F \<or> c = 0x21 \<or> c = 0x2C"

definition adjacent :: "jsstring \<Rightarrow> (jschar \<times> jschar) set" where
  "adjacent s = set (zip s (tl s))"

text \<open>No mark is directly followed by a copy of itself.\<close>

definition noDoubledMark :: "jsstring \<Rightarrow> bool" where
  "noDoubledMark s \<longleftrightarrow> list_all (\<lambda>(a, b). \<not> (isMark a \<and> a = b)) (zip s (tl s))"

text \<open>Every \<open>p\<close> in \<open>s\<close> is followed by white space, or is the last character.\<close>

definition spaced :: "jschar \<Rightarrow> jsstring \<Rightarrow> bool" where
  "spaced p s \<longleftrightarrow> (\<forall>(a, b)\<in>adjacent s. a = p \<longrightarrow> isSpace b)"

text \<open>Characters that the first, second and last two replacements leave alone.\<close>

definition plainChar :: "jschar \<Rightarrow> bool" where
  "plainChar c \<longleftrightarrow> \<not> isControl c \<and> \<not> isDecoration c \<and>
     c \<noteq> 0xFF02 \<and> c \<noteq> 0x201E \<and> c \<noteq> 0x2018 \<and> c \<noteq> 0x2019"

text \<open>The shape of a cleaned text, and a text with at most one blank appended.\<close>

definition settled :: "jsstring \<Rightarrow> bool" where
  "settled s \<longleftrightarrow> (\<forall>c\<in>set s. plainChar c) \<and> trimmed s \<and>
     spaced 0x2E s \<and> spaced 0x3F s \<and> spaced 0x21 s \<and> spaced 0x2C s"

definition padded :: "jsstring \<Rightarrow> jsstring \<Rightarrow> bool" where
  "padded s z \<longleftrightarrow> z = s \<or> (s \<noteq> [] \<and> z = s @ [0x20])"

definition rawChar :: "jschar \<Rightarrow> bool" where
  "rawChar c \<longleftrightarrow> \<not> isControl c \<and> \<not> isDecoration c"

text \<open>A write that ends within the first \<open>n\<close> bytes; a write that misses a given range.\<close>

definition fitsIn :: "nat \<Rightarrow> dvWrite \<Rightarrow> bool" where
  "fitsIn n w \<longleftrightarrow> fst w + length (snd w) \<le> n"


text \<open>
  The standard reading of the container, as the round trip of the spec needs it (the program
  has no parser of its own). A blob is accepted when it starts with a RIFF chunk of type
  WAVE whose size field covers the rest of the header and the data, followed by a \<open>fmt\<close>
  chunk of 16 bytes that declares PCM (format tag 1) with 16 bits per sample, a block
  alignment of two bytes per channel and the matching byte rate, followed by the \<open>data\<close>
  chunk, whose declared length must lie inside the blob. All numbers are little-endian.
  Anything else is refused. The samples of an accepted blob are turned into floats by the
  program's \<open>decodeAudioData\<close>, which divides by 32768.
\<close>

definition slice :: "nat \<Rightarrow> nat \<Rightarrow> 'a list \<Rightarrow> 'a list" where
  "slice offset n v = take n (drop offset v)"

definition leValue :: "byte list \<Rightarrow> nat" where
  "leValue bs = foldr (\<lambda>b acc. b + 256 * acc) bs 0"

definition parseWav :: "byte list \<Rightarrow> AudioBuffer option" where
  "parseWav blob =
     (let riffSize = leValue (slice 4 4 blob);
          fmtSize = leValue (slice 16 4 blob);
          formatTag = leValue (slice 20 2 blob);
          numChannels = leValue (slice 22 2 blob);
          rate = leValue (slice 24 4 blob);
          byteRate = leValue (slice 28 4 blob);
          blockAlign = leValue (slice 32 2 blob);
          bitsPerSample = leValue (slice 34 2 blob);
          dataLength = leValue (slice 40 4 blob)
      in if length blob < 44 then None
         else if slice 0 4 blob \<noteq> js ''RIFF'' \<or> slice 8 4 blob \<noteq> js ''WAVE'' \<or>
                 slice 12 4 blob \<noteq> js ''fmt '' \<or> slice 36 4 blob \<noteq> js ''data'' then None
         else if fmtSize \<noteq> 16 \<or> formatTag \<noteq> 1 \<or> bitsPerSample \<noteq> 16 \<or>
                 blockAlign \<noteq> numChannels * 2 \<or> byteRate \<noteq> rate * blockAlign \<or>
                 riffSize \<noteq> 36 + dataLength \<or> length blob < 44 + dataLength then None
         else (case decodeAudioData (take dataLength (drop 44 blob)) rate numChannels of
                 Inl e \<Rightarrow> None
               | Inr buffer \<Rightarrow> Some buffer))"







text \<open>What \<open>decodeAudioData\<close> builds from the four bytes \<open>FF 7F 00 80\<close>, mono.\<close>

definition pcmExample :: AudioBuffer where
  "pcmExample = \<lparr> sampleRate = 24000, frames = 2,
                   channelData = [[Finite (32767 / 32768), Finite (- 1)]] \<rparr>"

text \<open>
  After a failure of the section \<open>chunkId\<close>: its status is \<open>Error\<close>, every other section
  is as before, and so is the rest of the state.
\<close>

definition onlyFailed :: "jsstring \<Rightarrow> ExtendedAppState \<Rightarrow> ExtendedAppState \<Rightarrow> bool" where
  "onlyFailed chunkId before after \<longleftrightarrow>
     after = before\<lparr>chunks := chunks after\<rparr> \<and>
     list_all2 (\<lambda>old new.
        if chunk_id old = chunkId then status new = Error \<and> chunk_id new = chunkId
        else new = old)
       (chunks before) (chunks after)"

text \<open>The reflow is rejected, or the synthesis of the reflowed text fails.\<close>

definition generationFails :: "Services \<Rightarrow> TextChunk \<Rightarrow> VoiceName \<Rightarrow> bool" where
  "generationFails svc chunk voice \<longleftrightarrow>
     (case restructureTextWithAI svc (content chunk) of
        Inl e \<Rightarrow> True
      | Inr restructuredContent \<Rightarrow>
          (case generateTTS svc restructuredContent voice of Inl e \<Rightarrow> True | Inr result \<Rightarrow> False))"

text \<open>A service that answers without text and without audio, and a state of two sections.\<close>

definition silentService :: Services where
  "silentService = \<lparr> generateContent = (\<lambda>request. Inr None),
                       generateSpeech = (\<lambda>request voice. Inr None),
                       atob = (\<lambda>base64. Inr base64),
                       createObjectURL = (\<lambda>blob. []) \<rparr>"

text \<open>
  A service that answers with audio to one request only, the instruction followed by 4000
  letters \<open>A\<close>, and rejects every other request. Its payload decodes to the four bytes
  \<open>FF 7F 00 80\<close>.
\<close>

definition probeService :: Services where
  "probeService = \<lparr> generateContent = (\<lambda>request. Inr None),
                      generateSpeech = (\<lambda>request voice.
                        if request = ttsInstruction @ replicate 4000 0x41
                        then Inr (Some (js ''/38AgA=='')) else Inl ServiceError),
                      atob = (\<lambda>base64. if base64 = js ''/38AgA==''
                                       then Inr [0xFF, 0x7F, 0x00, 0x80] else Inl InvalidCharacterError),
                      createObjectURL = (\<lambda>blob. js ''blob:wav'') \<rparr>"

definition sectionA :: TextChunk where
  "sectionA = \<lparr> chunk_id = js ''a'', content = js ''One.'', status = Pending, audioUrl = None,
                fileName = js ''t.txt'', index = 0, progress = Some 0 \<rparr>"

definition sectionB :: TextChunk where
  "sectionB = \<lparr> chunk_id = js ''b'', content = js ''Two.'', status = Pending, audioUrl = None,
                fileName = js ''t.txt'', index = 1, progress = Some 0 \<rparr>"

definition twoSections :: ExtendedAppState where
  "twoSections = \<lparr> originalFileName = Some (js ''t.txt''), chunks = [sectionA, sectionB],
                    selectedVoice = Puck, lastPlayedChunkId = None, lastPlayedTime = None,
                    currentPage = 1, playbackRate = 23 / 20, isAutoNext = False \<rparr>"

section \<open>Facts about \<open>trim\<close>\<close>

lemma dropWhile_hd_stable: "s \<noteq> [] \<Longrightarrow> \<not> P (hd s) \<Longrightarrow> dropWhile P s = s"
  by (cases s) auto

lemma last_dropWhile: "dropWhile P s \<noteq> [] \<Longrightarrow> last (dropWhile P s) = last s"
  by (induction s) (auto split: if_splits)

lemma trimmed_trim: "trimmed (trim s)"
proof (cases "trim s = []")
  case True
  then show ?thesis by (simp add: trimmed_def)
next
  case False
  let ?u = "dropWhile isSpace s"
  let ?v = "dropWhile isSpace (rev ?u)"
  from False have v: "?v \<noteq> []" by (simp add: trim_def)
  then have u: "?u \<noteq> []" by (cases "?u") auto
  have "\<not> isSpace (hd ?v)" using v by (rule hd_dropWhile)
  moreover have "last ?v = last (rev ?u)" using v by (rule last_dropWhile)
  then have "\<not> isSpace (last ?v)" using u hd_dropWhile [OF u] by (simp add: last_rev)
  ultimately show ?thesis using v by (simp add: trimmed_def trim_def hd_rev last_rev)
qed

lemma trim_trimmed: "trimmed s \<Longrightarrow> trim s = s"
  by (cases "s = []") (auto simp: trimmed_def trim_def dropWhile_hd_stable hd_rev)

lemma trim_idem: "trim (trim s) = trim s"
  by (rule trim_trimmed [OF trimmed_trim])

lemma length_trim_le: "length (trim s) \<le> length s"
proof -
  have "length (trim s) \<le> length (dropWhile isSpace s)"
    unfolding trim_def using length_dropWhile_le [of isSpace "rev (dropWhile isSpace s)"] by simp
  also have "\<dots> \<le> length s" by (rule length_dropWhile_le)
  finally show ?thesis .
qed

lemma trim_has_ink: "trim s \<noteq> [] \<Longrightarrow> \<exists>c\<in>set (trim s). \<not> isSpace c"
  using trimmed_trim [of s] by (auto simp: trimmed_def intro: bexI [of _ "hd (trim s)"])

lemma trim_blank: "(\<forall>c\<in>set s. isSpace c) \<Longrightarrow> trim s = []"
proof -
  assume "\<forall>c\<in>set s. isSpace c"
  then have "dropWhile isSpace s = []" by (induction s) auto
  then show ?thesis by (simp only: trim_def dropWhile.simps rev.simps)
qed

lemma ink_Nil [simp]: "ink [] = []"
  by (simp add: ink_def)

lemma ink_Cons [simp]: "ink (c # s) = (if isSpace c then ink s else c # ink s)"
  by (simp add: ink_def)

lemma subseq_dropWhile: "subseq (dropWhile P s) s"
  by (induction s) auto

lemma ink_append [simp]: "ink (a @ b) = ink a @ ink b"
  by (simp add: ink_def)

lemma ink_dropWhile: "ink (dropWhile isSpace s) = ink s"
  by (induction s) (auto simp: ink_def)

lemma ink_rev: "ink (rev s) = rev (ink s)"
  by (simp add: ink_def rev_filter)

lemma ink_trim: "ink (trim s) = ink s"
  by (simp add: trim_def ink_rev ink_dropWhile)

lemma trim_decomp:
  "s = takeWhile isSpace s @ trim s @ rev (takeWhile isSpace (rev (dropWhile isSpace s)))"
proof -
  let ?u = "dropWhile isSpace s"
  have "rev (takeWhile isSpace (rev ?u) @ dropWhile isSpace (rev ?u)) = ?u"
    by (simp only: takeWhile_dropWhile_id rev_rev_ident)
  then have "?u = trim s @ rev (takeWhile isSpace (rev ?u))"
    by (simp only: rev_append trim_def)
  moreover have "s = takeWhile isSpace s @ ?u" by simp
  ultimately show ?thesis by metis
qed

lemma subseq_trim: "subseq (trim s) s"
proof -
  have "subseq (trim s) (trim s @ rev (takeWhile isSpace (rev (dropWhile isSpace s))))"
    by (rule subseq_rev_drop_many) simp
  then have "subseq (trim s)
      (takeWhile isSpace s @ trim s @ rev (takeWhile isSpace (rev (dropWhile isSpace s))))"
    by (rule list_emb_append2)
  then show ?thesis using trim_decomp [of s] by simp
qed

section \<open>The chunker keeps the text\<close>

lemma splitTextIntoChunks_unfold:
  "splitTextIntoChunks text maxChars =
     pushTrimmed (fst (chunkLoop maxChars [] [] (splitSegments [] (cleanTextForTTS text))))
                 (snd (chunkLoop maxChars [] [] (splitSegments [] (cleanTextForTTS text))))"
  by (simp add: splitTextIntoChunks_def Let_def split_beta)

lemma ink_concat_pushTrimmed: "ink (concat (pushTrimmed acc cur)) = ink (concat acc) @ ink cur"
proof (cases "trim cur = []")
  case True
  then have "ink (trim cur) = []" by simp
  then have "ink cur = []" by (simp only: ink_trim)
  then show ?thesis using True by (simp add: pushTrimmed_def)
next
  case False
  then show ?thesis by (simp add: pushTrimmed_def ink_trim)
qed

lemma subseq_concat_pushTrimmed: "subseq (concat (pushTrimmed acc cur)) (concat acc @ cur)"
proof (cases "trim cur = []")
  case True
  then show ?thesis by (simp add: pushTrimmed_def subseq_rev_drop_many)
next
  case False
  have "subseq (concat acc @ trim cur) (concat acc @ cur)"
    using subseq_trim by (simp add: subseq_append')
  with False show ?thesis by (simp add: pushTrimmed_def)
qed

lemma ink_splitSegments: "ink (concat (splitSegments piece s)) = ink piece @ ink s"
proof (induction piece s rule: splitSegments.induct)
  case (1 piece)
  then show ?case by simp
next
  case (2 piece c s)
  show ?case
  proof (cases "isDelimiter c")
    case True
    with 2 show ?thesis by (simp add: ink_dropWhile isDelimiter_def isSpace_def)
  next
    case False
    with 2 show ?thesis by simp
  qed
qed

lemma subseq_splitSegments: "subseq (concat (splitSegments piece s)) (piece @ s)"
proof (induction piece s rule: splitSegments.induct)
  case (1 piece)
  then show ?case by simp
next
  case (2 piece c s)
  show ?case
  proof (cases "isDelimiter c")
    case True
    with 2 have "subseq (concat (splitSegments [] (dropWhile isSpace s))) (dropWhile isSpace s)"
      by simp
    then have "subseq (concat (splitSegments [] (dropWhile isSpace s))) s"
      using subseq_dropWhile subseq_order.trans by blast
    then have "subseq (piece @ c # concat (splitSegments [] (dropWhile isSpace s))) (piece @ c # s)"
      by (simp add: subseq_append')
    with True show ?thesis by simp
  next
    case False
    with 2 show ?thesis by simp
  qed
qed

lemma chunkLoop_ink:
  "ink (concat (fst (chunkLoop m acc cur segs)) @ snd (chunkLoop m acc cur segs))
     = ink (concat acc) @ ink cur @ ink (concat segs)"
  by (induction segs arbitrary: acc cur) (simp_all add: ink_concat_pushTrimmed)

lemma chunkLoop_subseq:
  "subseq (concat (fst (chunkLoop m acc cur segs)) @ snd (chunkLoop m acc cur segs))
     (concat acc @ cur @ concat segs)"
proof (induction segs arbitrary: acc cur)
  case Nil
  then show ?case by simp
next
  case (Cons seg segs)
  show ?case
  proof (cases "seg \<noteq> [] \<and> int (length cur) + int (length seg) > m")
    case True
    let ?r = "chunkLoop m (pushTrimmed acc cur) seg segs"
    have "subseq (concat (fst ?r) @ snd ?r) (concat (pushTrimmed acc cur) @ seg @ concat segs)"
      by (rule Cons.IH)
    moreover have "subseq (concat (pushTrimmed acc cur) @ seg @ concat segs)
        ((concat acc @ cur) @ seg @ concat segs)"
      by (rule list_emb_append_mono [OF subseq_concat_pushTrimmed]) simp
    ultimately have "subseq (concat (fst ?r) @ snd ?r) ((concat acc @ cur) @ seg @ concat segs)"
      using subseq_order.trans by blast
    with True show ?thesis by simp
  next
    case False
    then show ?thesis using Cons.IH [of acc cur] Cons.IH [of acc "cur @ seg"]
      by (auto split: if_splits)
  qed
qed

subsection \<open>The sections as groups of tokens\<close>

lemma concat_splitSegments: "concat (splitSegments piece s) = piece @ withoutSeparatorRuns s"
proof (induction piece s rule: splitSegments.induct)
  case (1 piece)
  then show ?case by simp
next
  case (2 piece c s)
  then show ?case by (cases "isDelimiter c") simp_all
qed

lemma pushTrimmed_groups:
  assumes "acc = nonblank (map (\<lambda>g. trim (concat g)) gs)" and "cur = concat g"
  shows "pushTrimmed acc cur = nonblank (map (\<lambda>g. trim (concat g)) (gs @ [g]))"
  using assms by (simp add: pushTrimmed_def nonblank_def)

lemma chunkLoop_groups:
  assumes "acc = nonblank (map (\<lambda>g. trim (concat g)) gs)" and "cur = concat g"
  shows "\<exists>gs' g'. fst (chunkLoop m acc cur segs) = nonblank (map (\<lambda>g. trim (concat g)) gs') \<and>
           snd (chunkLoop m acc cur segs) = concat g' \<and>
           concat gs' @ g' = concat gs @ g @ nonblank segs"
  using assms
proof (induction segs arbitrary: acc cur gs g)
  case Nil
  then show ?case by (auto simp: nonblank_def)
next
  case (Cons seg segs)
  show ?case
  proof (cases "seg = []")
    case True
    with Cons.IH [OF Cons.prems] show ?thesis by (simp add: nonblank_def)
  next
    case False
    show ?thesis
    proof (cases "int (length cur) + int (length seg) > m")
      case True
      have a: "pushTrimmed acc cur = nonblank (map (\<lambda>g. trim (concat g)) (gs @ [g]))"
        using Cons.prems by (rule pushTrimmed_groups)
      have b: "seg = concat [seg]" by simp
      from Cons.IH [OF a b] obtain gs' g' where
        "fst (chunkLoop m (pushTrimmed acc cur) seg segs) = nonblank (map (\<lambda>g. trim (concat g)) gs')"
        "snd (chunkLoop m (pushTrimmed acc cur) seg segs) = concat g'"
        "concat gs' @ g' = concat (gs @ [g]) @ [seg] @ nonblank segs" by blast
      with True False show ?thesis by (auto simp: nonblank_def)
    next
      case no: False
      have b: "cur @ seg = concat (g @ [seg])" using Cons.prems(2) by simp
      from Cons.IH [OF Cons.prems(1) b] obtain gs' g' where
        "fst (chunkLoop m acc (cur @ seg) segs) = nonblank (map (\<lambda>g. trim (concat g)) gs')"
        "snd (chunkLoop m acc (cur @ seg) segs) = concat g'"
        "concat gs' @ g' = concat gs @ (g @ [seg]) @ nonblank segs" by blast
      with no False show ?thesis by (auto simp: nonblank_def)
    qed
  qed
qed

lemma sections_subseq:
  "subseq (concat (splitTextIntoChunks text maxChars)) (cleanTextForTTS text)"
proof -
  let ?segs = "splitSegments [] (cleanTextForTTS text)"
  let ?r = "chunkLoop maxChars [] [] ?segs"
  have "subseq (concat (pushTrimmed (fst ?r) (snd ?r))) (concat (fst ?r) @ snd ?r)"
    by (rule subseq_concat_pushTrimmed)
  moreover have "subseq (concat (fst ?r) @ snd ?r) (concat ?segs)"
    using chunkLoop_subseq [of maxChars "[]" "[]" ?segs] by simp
  moreover have "subseq (concat ?segs) (cleanTextForTTS text)"
    using subseq_splitSegments [of "[]" "cleanTextForTTS text"] by simp
  ultimately show ?thesis
    unfolding splitTextIntoChunks_unfold using subseq_order.trans by blast
qed

lemma sections_ink:
  "ink (concat (splitTextIntoChunks text maxChars)) = ink (cleanTextForTTS text)"
proof -
  let ?segs = "splitSegments [] (cleanTextForTTS text)"
  let ?r = "chunkLoop maxChars [] [] ?segs"
  have "ink (concat (pushTrimmed (fst ?r) (snd ?r))) = ink (concat ?segs)"
    using chunkLoop_ink [of maxChars "[]" "[]" ?segs] by (simp add: ink_concat_pushTrimmed)
  then show ?thesis unfolding splitTextIntoChunks_unfold by (simp add: ink_splitSegments)
qed

text \<open>
  Claim C1, as amended. Take the tokens of the delimiter split of the cleaned text that are
  not empty, in order. They fall into consecutive groups, every token in exactly one group,
  such that the sections are, in order, the groups concatenated and trimmed, a group that
  trims to nothing giving no section. The tokens concatenated are the cleaned text without
  the white space that directly follows a delimiter: the whole run behind each delimiter is
  consumed by the split (\<open>\s*\<close>), not one separator, and nothing else is. So the sections
  differ from the cleaned text only by those runs and by what \<open>trim\<close> strips from the two
  ends of a section; in particular the sections concatenated are a subsequence of the
  cleaned text with the same characters other than white space, in the same order: no
  character that is not white space is lost, duplicated or moved.
\<close>

theorem sections_are_trimmed_token_groups:
  "(\<exists>groups. concat groups = nonblank (splitSegments [] (cleanTextForTTS text)) \<and>
      splitTextIntoChunks text maxChars = nonblank (map (\<lambda>g. trim (concat g)) groups)) \<and>
   concat (splitSegments [] (cleanTextForTTS text)) = withoutSeparatorRuns (cleanTextForTTS text) \<and>
   subseq (concat (splitTextIntoChunks text maxChars)) (cleanTextForTTS text) \<and>
   filter (\<lambda>c. \<not> isSpace c) (concat (splitTextIntoChunks text maxChars))
     = filter (\<lambda>c. \<not> isSpace c) (cleanTextForTTS text)"
proof (intro conjI)
  let ?segs = "splitSegments [] (cleanTextForTTS text)"
  have "[] = nonblank (map (\<lambda>g. trim (concat g)) [])" and "[] = concat ([] :: jsstring list)"
    by (simp_all add: nonblank_def)
  from chunkLoop_groups [OF this, of maxChars ?segs] obtain gs g where
    f: "fst (chunkLoop maxChars [] [] ?segs) = nonblank (map (\<lambda>g. trim (concat g)) gs)"
    and s: "snd (chunkLoop maxChars [] [] ?segs) = concat g"
    and c: "concat gs @ g = nonblank ?segs" by auto
  have "splitTextIntoChunks text maxChars = nonblank (map (\<lambda>g. trim (concat g)) (gs @ [g]))"
    unfolding splitTextIntoChunks_unfold using f s by (rule pushTrimmed_groups)
  moreover have "concat (gs @ [g]) = nonblank ?segs" using c by simp
  ultimately show "\<exists>groups. concat groups = nonblank ?segs \<and>
      splitTextIntoChunks text maxChars = nonblank (map (\<lambda>g. trim (concat g)) groups)" by blast
  show "concat ?segs = withoutSeparatorRuns (cleanTextForTTS text)"
    by (simp add: concat_splitSegments)
  show "subseq (concat (splitTextIntoChunks text maxChars)) (cleanTextForTTS text)"
    by (rule sections_subseq)
  show "filter (\<lambda>c. \<not> isSpace c) (concat (splitTextIntoChunks text maxChars))
     = filter (\<lambda>c. \<not> isSpace c) (cleanTextForTTS text)"
    using sections_ink [of "text" maxChars] by (simp add: ink_def)
qed

section \<open>Shape of the sections\<close>

lemma pushTrimmed_wellFormed:
  "\<forall>c\<in>set acc. wellFormedSection c \<Longrightarrow> \<forall>c\<in>set (pushTrimmed acc cur). wellFormedSection c"
  by (auto simp: pushTrimmed_def wellFormedSection_def trim_idem dest: trim_has_ink)

lemma chunkLoop_wellFormed:
  "\<forall>c\<in>set acc. wellFormedSection c \<Longrightarrow>
   \<forall>c\<in>set (fst (chunkLoop m acc cur segs)). wellFormedSection c"
proof (induction segs arbitrary: acc cur)
  case Nil
  then show ?case by simp
next
  case (Cons seg segs)
  then show ?case using pushTrimmed_wellFormed [of acc cur] by simp
qed

lemma sections_wellFormed: "\<forall>c\<in>set (splitTextIntoChunks text maxChars). wellFormedSection c"
  unfolding splitTextIntoChunks_unfold
  by (rule pushTrimmed_wellFormed, rule chunkLoop_wellFormed) simp

text \<open>An input of white space only is cleaned to the empty string.\<close>

lemma spaceAfter_absent: "p \<notin> set s \<Longrightarrow> spaceAfter atEnd p s = s"
  by (induction atEnd p s rule: spaceAfter.induct) auto

lemma collapseFrom_absent: "p \<notin> set s \<Longrightarrow> 0 < n \<Longrightarrow> collapseFrom p n r 0 s = s"
  by (induction s) (auto simp: flushRun_def)

lemma collapseRuns_absent: "p \<notin> set s \<Longrightarrow> 0 < n \<Longrightarrow> collapseRuns p n r s = s"
  by (simp add: collapseRuns_def collapseFrom_absent)

lemma blank_prepared:
  assumes "\<forall>c\<in>set text. isSpace c"
  shows "\<forall>c\<in>set (blankDecoration (removeControl text)). isSpace c \<and> \<not> isControl c"
  using assms by (auto simp: blankDecoration_def removeControl_def isSpace_def isControl_def)

lemma cleanTextForTTS_blank:
  assumes "\<forall>c\<in>set text. isSpace c"
  shows "cleanTextForTTS text = []"
proof -
  let ?s = "blankDecoration (removeControl text)"
  have sp: "\<forall>c\<in>set ?s. isSpace c \<and> \<not> isControl c" using assms by (rule blank_prepared)
  have "0x2E \<notin> set ?s" "0x3F \<notin> set ?s" "0x21 \<notin> set ?s" "0x2C \<notin> set ?s" "0x0A \<notin> set ?s"
    using sp by (auto simp: isSpace_def isControl_def)
  then have "cleanTextForTTS text = trim (straightSingle (straightDouble ?s))"
    by (simp add: cleanTextForTTS_def spaceAfter_absent collapseRuns_absent)
  moreover have "\<forall>c\<in>set (straightSingle (straightDouble ?s)). isSpace c"
    using sp by (auto simp: straightSingle_def straightDouble_def isSpace_def)
  ultimately show ?thesis by (simp only: trim_blank)
qed

text \<open>
  Claim C10. Every section returned by \<open>splitTextIntoChunks\<close> is non-empty, holds a character
  that is not white space, and is its own \<open>trim\<close>; an input that is empty or all white space
  gives no section. This holds for every \<open>maxChars\<close>.
\<close>

theorem sections_trimmed_nonblank:
  "(\<forall>c\<in>set (splitTextIntoChunks text maxChars).
      c \<noteq> [] \<and> (\<exists>ch\<in>set c. \<not> isSpace ch) \<and> trim c = c) \<and>
   ((\<forall>ch\<in>set text. isSpace ch) \<longrightarrow> splitTextIntoChunks text maxChars = [])"
proof
  show "\<forall>c\<in>set (splitTextIntoChunks text maxChars).
      c \<noteq> [] \<and> (\<exists>ch\<in>set c. \<not> isSpace ch) \<and> trim c = c"
    using sections_wellFormed [of "text" maxChars] by (simp add: wellFormedSection_def)
  show "(\<forall>ch\<in>set text. isSpace ch) \<longrightarrow> splitTextIntoChunks text maxChars = []"
  proof
    assume "\<forall>ch\<in>set text. isSpace ch"
    then have "cleanTextForTTS text = []" by (rule cleanTextForTTS_blank)
    then show "splitTextIntoChunks text maxChars = []"
      by (simp add: splitTextIntoChunks_unfold pushTrimmed_def trim_def)
  qed
qed

section \<open>Length of the sections\<close>

text \<open>The loop keeps every pushed section within the cap, or a lone oversized segment.\<close>

lemma pushTrimmed_fits:
  assumes "\<forall>c\<in>set acc. fits m S c" and "cur = [] \<or> int (length cur) \<le> m \<or> cur \<in> S"
  shows "\<forall>c\<in>set (pushTrimmed acc cur). fits m S c"
proof -
  have "fits m S (trim cur)" if "trim cur \<noteq> []"
  proof (cases "int (length cur) \<le> m")
    case True
    then show ?thesis using length_trim_le [of cur] by (simp add: fits_def)
  next
    case False
    moreover from that have "cur \<noteq> []" by (auto simp: trim_def)
    ultimately have "cur \<in> S" and "m < int (length cur)" using assms(2) by auto
    then show ?thesis unfolding fits_def by blast
  qed
  then show ?thesis using assms(1) by (auto simp: pushTrimmed_def)
qed

lemma chunkLoop_fits:
  assumes "\<forall>c\<in>set acc. fits m S c" and "cur = [] \<or> int (length cur) \<le> m \<or> cur \<in> S"
    and "set segs \<subseteq> S"
  shows "(\<forall>c\<in>set (fst (chunkLoop m acc cur segs)). fits m S c) \<and>
         (snd (chunkLoop m acc cur segs) = [] \<or> int (length (snd (chunkLoop m acc cur segs))) \<le> m
           \<or> snd (chunkLoop m acc cur segs) \<in> S)"
  using assms
proof (induction segs arbitrary: acc cur)
  case Nil
  then show ?case by simp
next
  case (Cons seg segs)
  show ?case
  proof (cases "seg = []")
    case True
    then show ?thesis using Cons.IH [of acc cur] Cons.prems by simp
  next
    case False
    show ?thesis
    proof (cases "int (length cur) + int (length seg) > m")
      case True
      have "\<forall>c\<in>set (pushTrimmed acc cur). fits m S c"
        using Cons.prems(1,2) by (rule pushTrimmed_fits)
      moreover have "seg \<in> S" using Cons.prems(3) by simp
      ultimately show ?thesis
        using Cons.IH [of "pushTrimmed acc cur" seg] Cons.prems(3) True False by simp
    next
      case no: False
      then have "int (length (cur @ seg)) \<le> m" by simp
      then show ?thesis
        using Cons.IH [of acc "cur @ seg"] Cons.prems(1,3) no False by simp
    qed
  qed
qed

lemma sections_fit:
  "\<forall>c\<in>set (splitTextIntoChunks text maxChars).
     fits maxChars (set (splitSegments [] (cleanTextForTTS text))) c"
proof -
  let ?segs = "splitSegments [] (cleanTextForTTS text)"
  have "set ?segs \<subseteq> set ?segs" by simp
  then have *: "(\<forall>c\<in>set (fst (chunkLoop maxChars [] [] ?segs)). fits maxChars (set ?segs) c) \<and>
         (snd (chunkLoop maxChars [] [] ?segs) = []
           \<or> int (length (snd (chunkLoop maxChars [] [] ?segs))) \<le> maxChars
           \<or> snd (chunkLoop maxChars [] [] ?segs) \<in> set ?segs)"
    by (intro chunkLoop_fits) simp_all
  show ?thesis unfolding splitTextIntoChunks_unfold
    by (rule pushTrimmed_fits) (use * in blast)+
qed

text \<open>A segment longer than the cap is pushed, trimmed, as a section of its own.\<close>

lemma set_pushTrimmed: "set acc \<subseteq> set (pushTrimmed acc cur)"
  by (auto simp: pushTrimmed_def)

lemma chunkLoop_mono: "set acc \<subseteq> set (fst (chunkLoop m acc cur segs))"
proof (induction segs arbitrary: acc cur)
  case Nil
  then show ?case by simp
next
  case (Cons seg segs)
  then show ?case using set_pushTrimmed [of acc cur] by (simp, blast)
qed

lemma chunkLoop_pending:
  assumes "m < int (length cur)" and "trim cur \<noteq> []"
  shows "trim cur \<in> set (fst (chunkLoop m acc cur segs)) \<or> snd (chunkLoop m acc cur segs) = cur"
  using assms
proof (induction segs arbitrary: acc)
  case Nil
  then show ?case by simp
next
  case (Cons seg segs)
  show ?case
  proof (cases "seg = []")
    case True
    then show ?thesis using Cons by simp
  next
    case False
    have "trim cur \<in> set (pushTrimmed acc cur)" using Cons.prems(2) by (simp add: pushTrimmed_def)
    then have "trim cur \<in> set (fst (chunkLoop m (pushTrimmed acc cur) seg segs))"
      using chunkLoop_mono by blast
    then show ?thesis using False Cons.prems(1) by simp
  qed
qed

lemma chunkLoop_oversized:
  assumes "seg \<in> set segs" and "m < int (length seg)" and "trim seg \<noteq> []"
  shows "trim seg \<in> set (fst (chunkLoop m acc cur segs)) \<or> snd (chunkLoop m acc cur segs) = seg"
  using assms
proof (induction segs arbitrary: acc cur)
  case Nil
  then show ?case by simp
next
  case (Cons s segs)
  show ?case
  proof (cases "s = seg")
    case True
    from Cons.prems(3) have ne: "seg \<noteq> []" by (auto simp: trim_def)
    have "int (length cur) + int (length seg) > m" using Cons.prems(2) by simp
    then have "chunkLoop m acc cur (s # segs) = chunkLoop m (pushTrimmed acc cur) seg segs"
      using True ne by simp
    then show ?thesis using chunkLoop_pending [OF Cons.prems(2,3)] by simp
  next
    case False
    then have "seg \<in> set segs" using Cons.prems(1) by simp
    then show ?thesis using Cons.IH Cons.prems(2,3) by simp
  qed
qed

lemma oversized_emitted:
  assumes "seg \<in> set (splitSegments [] (cleanTextForTTS text))"
    and "maxChars < int (length seg)" and "trim seg \<noteq> []"
  shows "trim seg \<in> set (splitTextIntoChunks text maxChars)"
proof -
  let ?r = "chunkLoop maxChars [] [] (splitSegments [] (cleanTextForTTS text))"
  from chunkLoop_oversized [OF assms, of "[]" "[]"]
  have "trim seg \<in> set (fst ?r) \<or> snd ?r = seg" .
  then show ?thesis unfolding splitTextIntoChunks_unfold
    using assms(3) by (auto simp: pushTrimmed_def)
qed

text \<open>
  Claim C2. For \<open>maxChars > 0\<close>, a section is at most \<open>maxChars\<close> long unless it is a single
  segment of the delimiter split that is itself longer than \<open>maxChars\<close> (the section is that
  segment, trimmed like every section); and every such oversized segment that is not blank
  is emitted whole as a section of its own.
\<close>

theorem sections_bounded:
  assumes "0 < maxChars"
  shows "(\<forall>c\<in>set (splitTextIntoChunks text maxChars).
            int (length c) \<le> maxChars \<or>
            (\<exists>seg\<in>set (splitSegments [] (cleanTextForTTS text)).
               maxChars < int (length seg) \<and> c = trim seg)) \<and>
         (\<forall>seg\<in>set (splitSegments [] (cleanTextForTTS text)).
            maxChars < int (length seg) \<and> trim seg \<noteq> [] \<longrightarrow>
            trim seg \<in> set (splitTextIntoChunks text maxChars))"
  using sections_fit [of "text" maxChars] oversized_emitted [of _ "text" maxChars]
  by (simp add: fits_def)

section \<open>Neighbouring characters\<close>

lemma adjacent_Nil [simp]: "adjacent [] = {}"
  by (simp add: adjacent_def)

lemma adjacent_single [simp]: "adjacent [c] = {}"
  by (simp add: adjacent_def)

lemma adjacent_Cons2 [simp]: "adjacent (c # d # s) = insert (c, d) (adjacent (d # s))"
  by (simp add: adjacent_def)

lemma adjacent_Cons: "adjacent (c # s) = (if s = [] then {} else {(c, hd s)}) \<union> adjacent s"
  by (cases s) auto

lemma adjacent_append:
  "adjacent (a @ b) = adjacent a \<union> adjacent b \<union> (if a \<noteq> [] \<and> b \<noteq> [] then {(last a, hd b)} else {})"
proof (induction a rule: induct_list012)
  case 1
  then show ?case by simp
next
  case (2 c)
  then show ?case by (simp add: adjacent_Cons)
next
  case (3 c d a)
  then show ?case by auto
qed

lemma adjacent_map: "adjacent (map f s) = (\<lambda>(a, b). (f a, f b)) ` adjacent s"
  by (induction s rule: induct_list012) auto

lemma adjacent_subset: "adjacent s \<subseteq> set s \<times> set s"
  by (induction s rule: induct_list012) auto

lemma adjacent_trim: "adjacent (trim s) \<subseteq> adjacent s"
proof -
  let ?a = "takeWhile isSpace s"
  let ?b = "rev (takeWhile isSpace (rev (dropWhile isSpace s)))"
  have "adjacent (trim s) \<subseteq> adjacent (trim s @ ?b)" by (auto simp: adjacent_append)
  also have "\<dots> \<subseteq> adjacent (?a @ trim s @ ?b)" by (auto simp: adjacent_append [of ?a])
  finally show ?thesis using trim_decomp [of s] by simp
qed

subsection \<open>Single characters\<close>

lemma blank_isSpace [simp]: "isSpace 0x20"
  by (simp add: isSpace_def)

lemma marks_not_space [simp]:
  "\<not> isSpace 0x2E" "\<not> isSpace 0x3F" "\<not> isSpace 0x21" "\<not> isSpace 0x2C"
  by (simp_all add: isSpace_def)

section \<open>The spacing and collapsing rules\<close>

lemma spaceAfter_hd: "spaceAfter b p (d # s) \<noteq> [] \<and> hd (spaceAfter b p (d # s)) = d"
  by (cases s) auto

lemma spaceAfter_Nil_iff [simp]: "spaceAfter b p s = [] \<longleftrightarrow> s = []"
  using spaceAfter_hd [of b p] by (cases s) auto

lemma set_spaceAfter: "set (spaceAfter b p s) \<subseteq> insert 0x20 (set s)"
  by (induction b p s rule: spaceAfter.induct) auto

lemma adjacent_spaceAfter:
  "adjacent (spaceAfter b p s) \<subseteq> adjacent s \<union> {(p, 0x20)} \<union> ({0x20} \<times> UNIV)"
proof (induction b p s rule: spaceAfter.induct)
  case (1 atEnd p)
  then show ?case by simp
next
  case (2 atEnd p c)
  then show ?case by simp
next
  case (3 atEnd p c d s)
  show ?case
  proof (cases "c = p \<and> \<not> isSpace d")
    case True
    have "adjacent (d # spaceAfter atEnd p s) \<subseteq> adjacent (d # s) \<union> {(p, 0x20)} \<union> ({0x20} \<times> UNIV)"
    proof (cases s)
      case Nil
      then show ?thesis by simp
    next
      case (Cons e s')
      then show ?thesis using 3(1) [OF True] spaceAfter_hd [of atEnd p e s']
        by (auto simp: adjacent_Cons [of d])
    qed
    then show ?thesis using True by auto
  next
    case False
    then show ?thesis using 3(2) spaceAfter_hd [of atEnd p d s]
      by (auto simp: adjacent_Cons [of c])
  qed
qed

lemma spaceAfter_spaced_self:
  assumes "(p, p) \<notin> adjacent s" and "\<not> isSpace p"
  shows "spaced p (spaceAfter b p s)"
  using assms
proof (induction b p s rule: spaceAfter.induct)
  case (1 atEnd p)
  then show ?case by (simp add: spaced_def)
next
  case (2 atEnd p c)
  then show ?case by (simp add: spaced_def)
next
  case (3 atEnd p c d s)
  show ?case
  proof (cases "c = p \<and> \<not> isSpace d")
    case True
    with 3(3) have dp: "d \<noteq> p" by auto
    have "(p, p) \<notin> adjacent s" using 3(3) by (cases s) auto
    with 3(1) [OF True] 3(4) have ih: "spaced p (spaceAfter atEnd p s)" by simp
    have "spaced p (d # spaceAfter atEnd p s)"
      using ih dp by (auto simp: spaced_def adjacent_Cons [of d])
    then show ?thesis using True 3(4) by (auto simp: spaced_def)
  next
    case False
    have "(p, p) \<notin> adjacent (d # s)" using 3(3) by auto
    with 3(2) [OF False] 3(4) have ih: "spaced p (spaceAfter atEnd p (d # s))" by simp
    then show ?thesis using False spaceAfter_hd [of atEnd p d s]
      by (auto simp: spaced_def adjacent_Cons [of c])
  qed
qed

lemma spaceAfter_spaced_other:
  assumes "spaced q s" and "q \<noteq> p" and "q \<noteq> 0x20"
  shows "spaced q (spaceAfter b p s)"
  using assms adjacent_spaceAfter [of b p s] unfolding spaced_def by fastforce

lemma spaceAfter_settled_True:
  "spaced p s \<Longrightarrow> spaceAfter True p s = (if s \<noteq> [] \<and> last s = p then s @ [0x20] else s)"
proof (induction True p s rule: spaceAfter.induct)
  case (1 p)
  then show ?case by simp
next
  case (2 p c)
  then show ?case by simp
next
  case (3 p c d s)
  from 3(3) have nomatch: "\<not> (c = p \<and> \<not> isSpace d)" and rest: "spaced p (d # s)"
    by (auto simp: spaced_def)
  from nomatch have "spaceAfter True p (c # d # s) = c # spaceAfter True p (d # s)" by auto
  with 3(2) [OF nomatch rest] show ?case by simp
qed

lemma spaceAfter_settled_False: "spaced p s \<Longrightarrow> spaceAfter False p s = s"
proof (induction False p s rule: spaceAfter.induct)
  case (1 p)
  then show ?case by simp
next
  case (2 p c)
  then show ?case by simp
next
  case (3 p c d s)
  from 3(3) have nomatch: "\<not> (c = p \<and> \<not> isSpace d)" and rest: "spaced p (d # s)"
    by (auto simp: spaced_def)
  from nomatch have "spaceAfter False p (c # d # s) = c # spaceAfter False p (d # s)" by auto
  with 3(2) [OF nomatch rest] show ?case by simp
qed

subsection \<open>Runs\<close>

lemma collapseFrom_no_run:
  assumes "(p, p) \<notin> adjacent s" and "2 \<le> n"
  shows "collapseFrom p n r 0 s = s \<and>
         (s = [] \<or> hd s \<noteq> p \<longrightarrow> collapseFrom p n r (Suc 0) s = p # s)"
  using assms
proof (induction s)
  case Nil
  then show ?case by (simp add: flushRun_def)
next
  case (Cons c s)
  from Cons.prems(1) have tl: "(p, p) \<notin> adjacent s" and hd: "c = p \<longrightarrow> s = [] \<or> hd s \<noteq> p"
    by (auto simp: adjacent_Cons [of c])
  from Cons.IH [OF tl Cons.prems(2)] hd Cons.prems(2) show ?case
    by (auto simp: flushRun_def)
qed

lemma collapseRuns_no_run: "(p, p) \<notin> adjacent s \<Longrightarrow> 2 \<le> n \<Longrightarrow> collapseRuns p n r s = s"
  by (simp add: collapseRuns_def collapseFrom_no_run)

lemma spaced_no_run: "spaced p s \<Longrightarrow> \<not> isSpace p \<Longrightarrow> (p, p) \<notin> adjacent s"
  by (auto simp: spaced_def)

section \<open>A settled string is a fixed point of the cleaner\<close>

lemma spaced_padded: "spaced q s \<Longrightarrow> padded s z \<Longrightarrow> spaced q z"
  by (auto simp: padded_def spaced_def adjacent_append)

lemma padded_step:
  assumes "padded s z" and "spaced p s" and "\<not> isSpace p"
  shows "padded s (spaceAfter True p z)"
proof (cases "z = s")
  case True
  then show ?thesis using assms(2) by (auto simp: spaceAfter_settled_True padded_def)
next
  case False
  with assms(1) have z: "z = s @ [0x20]" and "s \<noteq> []" by (auto simp: padded_def)
  have "spaced p z" using assms(1,2) by (rule spaced_padded [rotated])
  moreover have "last z \<noteq> p" using z assms(3) by auto
  ultimately have "spaceAfter True p z = z" by (simp add: spaceAfter_settled_True)
  then show ?thesis using assms(1) by simp
qed

lemma trim_padded:
  assumes "padded s z" and "trimmed s"
  shows "trim z = s"
proof (cases "z = s")
  case True
  then show ?thesis using assms(2) by (simp add: trim_trimmed)
next
  case False
  with assms(1) have z: "z = s @ [0x20]" and ne: "s \<noteq> []" by (auto simp: padded_def)
  from ne assms(2) have h: "\<not> isSpace (hd s)" and l: "\<not> isSpace (last s)"
    by (auto simp: trimmed_def)
  have "dropWhile isSpace (s @ [0x20]) = s @ [0x20]"
    using ne h by (intro dropWhile_hd_stable) auto
  moreover have "dropWhile isSpace (rev s) = rev s"
    using ne l by (intro dropWhile_hd_stable) (auto simp: hd_rev)
  ultimately show ?thesis unfolding z trim_def by simp
qed

lemma plainChar_blank [simp]: "plainChar 0x20"
  by (simp add: plainChar_def isControl_def isDecoration_def)

lemma plainChar_newline [simp]: "\<not> plainChar 0x0A"
  by (simp add: plainChar_def isControl_def)

lemma plain_padded: "\<forall>c\<in>set s. plainChar c \<Longrightarrow> padded s z \<Longrightarrow> \<forall>c\<in>set z. plainChar c"
  by (auto simp: padded_def)

lemma removeControl_plain:
  assumes "\<forall>c\<in>set s. plainChar c"
  shows "removeControl s = s"
proof -
  have "\<forall>c\<in>set s. \<not> isControl c" using assms by (simp add: plainChar_def)
  then show ?thesis by (simp add: removeControl_def)
qed

lemma blankDecoration_plain:
  assumes "\<forall>c\<in>set s. plainChar c"
  shows "blankDecoration s = s"
  unfolding blankDecoration_def
proof (rule map_idI)
  fix c
  assume "c \<in> set s"
  with assms have "\<not> isDecoration c" by (simp add: plainChar_def)
  then show "(if isDecoration c then 0x20 else c) = c" by simp
qed

lemma straightDouble_plain:
  assumes "\<forall>c\<in>set s. plainChar c"
  shows "straightDouble s = s"
  unfolding straightDouble_def
proof (rule map_idI)
  fix c
  assume "c \<in> set s"
  with assms have "c \<noteq> 0xFF02" and "c \<noteq> 0x201E" by (simp_all add: plainChar_def)
  then show "(if c \<in> set [0x22, 0x22, 0xFF02, 0x201E] then 0x22 else c) = c" by simp
qed

lemma straightSingle_plain:
  assumes "\<forall>c\<in>set s. plainChar c"
  shows "straightSingle s = s"
  unfolding straightSingle_def
proof (rule map_idI)
  fix c
  assume "c \<in> set s"
  with assms have "c \<noteq> 0x2018" and "c \<noteq> 0x2019" by (simp_all add: plainChar_def)
  then show "(if c \<in> set [0x27, 0x27, 0x2018, 0x2019] then 0x27 else c) = c" by simp
qed

lemma plain_no_newline_run: "\<forall>c\<in>set s. plainChar c \<Longrightarrow> (0x0A, 0x0A) \<notin> adjacent s"
proof
  assume plain: "\<forall>c\<in>set s. plainChar c" and "(0x0A, 0x0A) \<in> adjacent s"
  then have "0x0A \<in> set s" using adjacent_subset [of s] by blast
  with plain have "plainChar 0x0A" by blast
  then show False by simp
qed

lemma settled_fixed:
  assumes "settled s"
  shows "cleanTextForTTS s = s"
proof -
  from assms have plain: "\<forall>c\<in>set s. plainChar c" and tr: "trimmed s"
    and dot: "spaced 0x2E s" and que: "spaced 0x3F s" and exc: "spaced 0x21 s" and com: "spaced 0x2C s"
    by (simp_all add: settled_def)
  define z where "z = spaceAfter True 0x21 (spaceAfter True 0x3F (spaceAfter True 0x2E s))"
  have "padded s s" by (simp add: padded_def)
  then have "padded s (spaceAfter True 0x2E s)" using dot by (rule padded_step) simp
  then have "padded s (spaceAfter True 0x3F (spaceAfter True 0x2E s))" using que by (rule padded_step) simp
  then have pz: "padded s z" unfolding z_def using exc by (rule padded_step) simp
  have zplain: "\<forall>c\<in>set z. plainChar c" using plain pz by (rule plain_padded)
  have zdot: "spaced 0x2E z" and zque: "spaced 0x3F z" and zexc: "spaced 0x21 z" and zcom: "spaced 0x2C z"
    using dot que exc com pz by (auto intro: spaced_padded)
  have c1: "spaceAfter False 0x2C z = z" using zcom by (rule spaceAfter_settled_False)
  have c2: "collapseRuns 0x0A 3 [0x0A, 0x0A] z = z"
    using plain_no_newline_run [OF zplain] by (simp add: collapseRuns_no_run)
  have c3: "collapseRuns 0x21 3 [0x21, 0x21] z = z"
    using spaced_no_run [OF zexc] by (simp add: collapseRuns_no_run)
  have c4: "collapseRuns 0x3F 3 [0x3F, 0x3F] z = z"
    using spaced_no_run [OF zque] by (simp add: collapseRuns_no_run)
  have c5: "collapseRuns 0x2E 4 [0x2E, 0x2E, 0x2E] z = z"
    using spaced_no_run [OF zdot] by (simp add: collapseRuns_no_run)
  have "cleanTextForTTS s = trim z"
    unfolding cleanTextForTTS_def removeControl_plain [OF plain] blankDecoration_plain [OF plain]
    unfolding z_def [symmetric] c1 c2 c3 c4 c5
      straightDouble_plain [OF zplain] straightSingle_plain [OF zplain] ..
  then show ?thesis using trim_padded [OF pz tr] by simp
qed

section \<open>The cleaned text is settled\<close>

lemma noDoubledMark_iff: "noDoubledMark s \<longleftrightarrow> (\<forall>(a, b)\<in>adjacent s. \<not> (isMark a \<and> a = b))"
  by (simp add: noDoubledMark_def adjacent_def list_all_iff)

lemma blank_not_mark [simp]: "\<not> isMark 0x20"
  by (simp add: isMark_def)

lemma noDoubledMark_no_run: "noDoubledMark s \<Longrightarrow> isMark p \<Longrightarrow> (p, p) \<notin> adjacent s"
  by (auto simp: noDoubledMark_iff)

lemma noDoubledMark_blankDecoration:
  assumes "noDoubledMark s"
  shows "noDoubledMark (blankDecoration s)"
  unfolding noDoubledMark_iff blankDecoration_def adjacent_map
proof (clarify)
  fix a b
  assume ab: "(a, b) \<in> adjacent s"
    and m: "isMark (if isDecoration a then 0x20 else a)"
    and e: "(if isDecoration a then 0x20 else a) = (if isDecoration b then 0x20 else b)"
  from m have a: "\<not> isDecoration a" "isMark a" by (auto split: if_splits)
  with e have "a = b" by (auto split: if_splits)
  with assms ab a show False by (auto simp: noDoubledMark_iff)
qed

lemma noDoubledMark_spaceAfter:
  assumes "noDoubledMark s" and "isMark p"
  shows "noDoubledMark (spaceAfter b p s)"
proof -
  have "\<not> (isMark a \<and> a = c)" if "(a, c) \<in> adjacent (spaceAfter b p s)" for a c
  proof -
    from that have "(a, c) \<in> adjacent s \<or> (a, c) = (p, 0x20) \<or> a = 0x20"
      using adjacent_spaceAfter [of b p s] by auto
    then show ?thesis using assms by (auto simp: noDoubledMark_iff)
  qed
  then show ?thesis unfolding noDoubledMark_iff by blast
qed

lemma space_not_quote:
  assumes "isSpace c"
  shows "c \<noteq> 0x22" "c \<noteq> 0xFF02" "c \<noteq> 0x201E" "c \<noteq> 0x27" "c \<noteq> 0x2018" "c \<noteq> 0x2019"
  using assms by (auto simp: isSpace_def)

lemma spaced_straightDouble:
  assumes "spaced q s" and "isMark q"
  shows "spaced q (straightDouble s)"
  unfolding spaced_def straightDouble_def adjacent_map
proof (clarify)
  fix a b
  assume ab: "(a, b) \<in> adjacent s"
    and "q = (if a \<in> set [0x22, 0x22, 0xFF02, 0x201E] then 0x22 else a)"
  with assms(2) have "a = q" by (auto simp: isMark_def split: if_splits)
  with assms(1) ab have sp: "isSpace b" by (auto simp: spaced_def)
  then show "isSpace (if b \<in> set [0x22, 0x22, 0xFF02, 0x201E] then 0x22 else b)"
    using space_not_quote [OF sp] by simp
qed

lemma spaced_straightSingle:
  assumes "spaced q s" and "isMark q"
  shows "spaced q (straightSingle s)"
  unfolding spaced_def straightSingle_def adjacent_map
proof (clarify)
  fix a b
  assume ab: "(a, b) \<in> adjacent s"
    and "q = (if a \<in> set [0x27, 0x27, 0x2018, 0x2019] then 0x27 else a)"
  with assms(2) have "a = q" by (auto simp: isMark_def split: if_splits)
  with assms(1) ab have sp: "isSpace b" by (auto simp: spaced_def)
  then show "isSpace (if b \<in> set [0x27, 0x27, 0x2018, 0x2019] then 0x27 else b)"
    using space_not_quote [OF sp] by simp
qed

lemma spaced_trim: "spaced q s \<Longrightarrow> spaced q (trim s)"
  using adjacent_trim [of s] by (auto simp: spaced_def)

lemma rawChar_blank [simp]: "rawChar 0x20"
  by (simp add: rawChar_def isControl_def isDecoration_def)

lemma blank_not_control: "\<not> isControl 0x20" "\<not> isDecoration 0x20"
  by (simp_all add: isControl_def isDecoration_def)

lemma raw_prepared: "\<forall>c\<in>set (blankDecoration (removeControl x)). rawChar c"
  by (auto simp: blankDecoration_def removeControl_def rawChar_def blank_not_control)

lemma raw_spaceAfter: "\<forall>c\<in>set s. rawChar c \<Longrightarrow> \<forall>c\<in>set (spaceAfter b p s). rawChar c"
  using set_spaceAfter [of b p s] by auto

lemma plainChar_quotes [simp]: "plainChar 0x22" "plainChar 0x27"
  by (simp_all add: plainChar_def isControl_def isDecoration_def)

lemma plain_straight:
  assumes "\<forall>c\<in>set s. rawChar c"
  shows "\<forall>c\<in>set (straightSingle (straightDouble s)). plainChar c"
proof -
  define f :: "jschar \<Rightarrow> jschar"
    where "f = (\<lambda>c. if c \<in> set [0x22, 0x22, 0xFF02, 0x201E] then 0x22 else c)"
  define g :: "jschar \<Rightarrow> jschar"
    where "g = (\<lambda>c. if c \<in> set [0x27, 0x27, 0x2018, 0x2019] then 0x27 else c)"
  have plain: "plainChar (g (f c))" if "rawChar c" for c
  proof (cases "c \<in> set [0x22, 0x22, 0xFF02, 0x201E]")
    case True
    then have "g (f c) = 0x22" by (simp add: f_def g_def)
    then show ?thesis by simp
  next
    case False
    then have fc: "f c = c" by (simp add: f_def)
    show ?thesis
    proof (cases "c \<in> set [0x27, 0x27, 0x2018, 0x2019]")
      case True
      then have "g (f c) = 0x27" unfolding fc by (simp add: g_def)
      then show ?thesis by simp
    next
      case sq: False
      then have "g (f c) = c" unfolding fc by (simp add: g_def)
      with sq False that show ?thesis by (simp add: plainChar_def rawChar_def)
    qed
  qed
  have "straightSingle (straightDouble s) = map g (map f s)"
    by (simp add: straightSingle_def straightDouble_def f_def g_def)
  then show ?thesis using assms plain by auto
qed

lemma plain_trim: "\<forall>c\<in>set s. plainChar c \<Longrightarrow> \<forall>c\<in>set (trim s). plainChar c"
  using trim_decomp [of s] by (metis Un_iff set_append)

lemma newline_not_raw: "\<forall>c\<in>set s. rawChar c \<Longrightarrow> (0x0A, 0x0A) \<notin> adjacent s"
proof
  assume raw: "\<forall>c\<in>set s. rawChar c" and "(0x0A, 0x0A) \<in> adjacent s"
  then have "0x0A \<in> set s" using adjacent_subset [of s] by blast
  with raw have "rawChar 0x0A" by blast
  then show False by (simp add: rawChar_def isControl_def)
qed

lemma isMark_marks [simp]: "isMark 0x2E" "isMark 0x3F" "isMark 0x21" "isMark 0x2C"
  by (simp_all add: isMark_def)

lemma clean_settled:
  assumes "noDoubledMark (removeControl x)"
  shows "settled (cleanTextForTTS x)"
proof -
  define s1 where "s1 = blankDecoration (removeControl x)"
  define s2 where "s2 = spaceAfter True 0x2E s1"
  define s3 where "s3 = spaceAfter True 0x3F s2"
  define s4 where "s4 = spaceAfter True 0x21 s3"
  define s5 where "s5 = spaceAfter False 0x2C s4"
  have n1: "noDoubledMark s1" unfolding s1_def using assms by (rule noDoubledMark_blankDecoration)
  have n2: "noDoubledMark s2" unfolding s2_def using n1 by (rule noDoubledMark_spaceAfter) simp
  have n3: "noDoubledMark s3" unfolding s3_def using n2 by (rule noDoubledMark_spaceAfter) simp
  have n4: "noDoubledMark s4" unfolding s4_def using n3 by (rule noDoubledMark_spaceAfter) simp
  have d2: "spaced 0x2E s2" unfolding s2_def
    by (rule spaceAfter_spaced_self [OF noDoubledMark_no_run [OF n1]]) simp_all
  have q3: "spaced 0x3F s3" unfolding s3_def
    by (rule spaceAfter_spaced_self [OF noDoubledMark_no_run [OF n2]]) simp_all
  have e4: "spaced 0x21 s4" unfolding s4_def
    by (rule spaceAfter_spaced_self [OF noDoubledMark_no_run [OF n3]]) simp_all
  have c5: "spaced 0x2C s5" unfolding s5_def
    by (rule spaceAfter_spaced_self [OF noDoubledMark_no_run [OF n4]]) simp_all
  have d3: "spaced 0x2E s3" unfolding s3_def using d2 by (rule spaceAfter_spaced_other) simp_all
  have d4: "spaced 0x2E s4" unfolding s4_def using d3 by (rule spaceAfter_spaced_other) simp_all
  have d5: "spaced 0x2E s5" unfolding s5_def using d4 by (rule spaceAfter_spaced_other) simp_all
  have q4: "spaced 0x3F s4" unfolding s4_def using q3 by (rule spaceAfter_spaced_other) simp_all
  have q5: "spaced 0x3F s5" unfolding s5_def using q4 by (rule spaceAfter_spaced_other) simp_all
  have e5: "spaced 0x21 s5" unfolding s5_def using e4 by (rule spaceAfter_spaced_other) simp_all
  have raw: "\<forall>c\<in>set s5. rawChar c"
    unfolding s5_def s4_def s3_def s2_def s1_def by (intro raw_spaceAfter raw_prepared)
  have k1: "collapseRuns 0x0A 3 [0x0A, 0x0A] s5 = s5"
    using newline_not_raw [OF raw] by (simp add: collapseRuns_no_run)
  have k2: "collapseRuns 0x21 3 [0x21, 0x21] s5 = s5"
    using spaced_no_run [OF e5] by (simp add: collapseRuns_no_run)
  have k3: "collapseRuns 0x3F 3 [0x3F, 0x3F] s5 = s5"
    using spaced_no_run [OF q5] by (simp add: collapseRuns_no_run)
  have k4: "collapseRuns 0x2E 4 [0x2E, 0x2E, 0x2E] s5 = s5"
    using spaced_no_run [OF d5] by (simp add: collapseRuns_no_run)
  have clean: "cleanTextForTTS x = trim (straightSingle (straightDouble s5))"
    unfolding cleanTextForTTS_def
    unfolding s1_def [symmetric] s2_def [symmetric] s3_def [symmetric] s4_def [symmetric]
      s5_def [symmetric] k1 k2 k3 k4 ..
  have "\<forall>c\<in>set (cleanTextForTTS x). plainChar c"
    unfolding clean by (intro plain_trim plain_straight raw)
  moreover have "trimmed (cleanTextForTTS x)" unfolding clean by (rule trimmed_trim)
  moreover have "spaced 0x2E (cleanTextForTTS x)" unfolding clean
    by (intro spaced_trim spaced_straightSingle spaced_straightDouble d5) simp_all
  moreover have "spaced 0x3F (cleanTextForTTS x)" unfolding clean
    by (intro spaced_trim spaced_straightSingle spaced_straightDouble q5) simp_all
  moreover have "spaced 0x21 (cleanTextForTTS x)" unfolding clean
    by (intro spaced_trim spaced_straightSingle spaced_straightDouble e5) simp_all
  moreover have "spaced 0x2C (cleanTextForTTS x)" unfolding clean
    by (intro spaced_trim spaced_straightSingle spaced_straightDouble c5) simp_all
  ultimately show ?thesis by (simp add: settled_def)
qed

text \<open>
  How far the cleaner is idempotent: a second pass changes nothing when, once the control
  characters are removed, none of the marks \<open>.\<close> \<open>?\<close> \<open>!\<close> \<open>,\<close> is directly followed by
  a copy of itself. A doubled mark is what the spacing rules mishandle, as the example
  \<open>"a..b"\<close> shows below.
\<close>

lemma clean_idempotent_without_doubled_marks:
  assumes "noDoubledMark (removeControl x)"
  shows "cleanTextForTTS (cleanTextForTTS x) = cleanTextForTTS x"
  using assms by (intro settled_fixed clean_settled)

section \<open>The encoder\<close>

lemma leBytes_1: "leBytes 1 v = [v mod 256]"
  by simp

lemma leBytes_2: "leBytes 2 v = [v mod 256, v div 256 mod 256]"
  by (simp add: numeral_2_eq_2)

lemma leBytes_4:
  "leBytes 4 v = [v mod 256, v div 256 mod 256, v div 256 div 256 mod 256,
                  v div 256 div 256 div 256 mod 256]"
  by (simp add: numeral_Bit0 [of "num.Bit0 num.One"] numeral_2_eq_2)

lemma length_leBytes [simp]: "length (leBytes k v) = k"
  by (induction k arbitrary: v) auto

lemma headerWrites_value:
  "headerWrites buffer =
     [(0, [82]), (1, [73]), (2, [70]), (3, [70]),
      setUint32 4 (36 + frames buffer * (numberOfChannels buffer * 2)),
      (8, [87]), (9, [65]), (10, [86]), (11, [69]),
      (12, [102]), (13, [109]), (14, [116]), (15, [32]),
      setUint32 16 16, setUint16 20 1, setUint16 22 (numberOfChannels buffer),
      setUint32 24 (sampleRate buffer),
      setUint32 28 (sampleRate buffer * (numberOfChannels buffer * 2)),
      setUint16 32 (numberOfChannels buffer * 2), setUint16 34 16,
      (36, [100]), (37, [97]), (38, [116]), (39, [97]),
      setUint32 40 (frames buffer * (numberOfChannels buffer * 2))]"
  by (simp add: headerWrites_def Let_def writeString_def js_def setUint8_def upt_conv_Cons)

lemma header_fitsIn: "\<forall>w\<in>set (headerWrites buffer). fitsIn 44 w"
  unfolding headerWrites_value by (simp add: fitsIn_def setUint16_def setUint32_def)

lemma sampleWrites_set:
  "set (sampleWrites buffer) =
     {setInt16 (44 + i * (numberOfChannels buffer * 2) + channel * 2)
               (scaleSample (clampSample (sampleAt buffer channel i)))
      | i channel. i < frames buffer \<and> channel < numberOfChannels buffer}"
  by (fastforce simp: sampleWrites_def Let_def)

lemma slot_bound:
  assumes "i < (n::nat)" and "c < m"
  shows "i * (m * 2) + c * 2 + 2 \<le> n * (m * 2)"
proof -
  have "i * (m * 2) + c * 2 + 2 \<le> i * (m * 2) + m * 2" using assms(2) by simp
  also have "\<dots> = Suc i * (m * 2)" by simp
  also have "\<dots> \<le> n * (m * 2)" using assms(1) by (intro mult_le_mono1) simp
  finally show ?thesis .
qed

lemma sample_fitsIn:
  "\<forall>w\<in>set (sampleWrites buffer). fitsIn (44 + frames buffer * (numberOfChannels buffer * 2)) w"
  unfolding sampleWrites_set using slot_bound [of _ "frames buffer" _ "numberOfChannels buffer"]
  by (auto simp: fitsIn_def setInt16_def)

lemma applyWrite_length: "applyWrite w v = Inr v' \<Longrightarrow> length v' = length v"
  by (auto simp: applyWrite_def split: if_splits)

lemma runWrites_total:
  "\<forall>w\<in>set ws. fitsIn (length v) w \<Longrightarrow> \<exists>v'. runWrites ws v = Inr v' \<and> length v' = length v"
proof (induction ws arbitrary: v)
  case Nil
  then show ?case by simp
next
  case (Cons w ws)
  then have fit: "fst w + length (snd w) \<le> length v" by (simp add: fitsIn_def)
  then obtain v1 where v1: "applyWrite w v = Inr v1" by (simp add: applyWrite_def)
  then have len: "length v1 = length v" by (rule applyWrite_length)
  with Cons.prems have "\<forall>w\<in>set ws. fitsIn (length v1) w" by simp
  from Cons.IH [OF this] v1 len show ?case by simp
qed

lemma fitsIn_mono: "fitsIn n w \<Longrightarrow> n \<le> m \<Longrightarrow> fitsIn m w"
  by (simp add: fitsIn_def)

lemma audioBufferToWav_total:
  "\<exists>blob. audioBufferToWav buffer = Inr blob \<and>
          length blob = 44 + frames buffer * numberOfChannels buffer * 2"
proof -
  let ?n = "44 + frames buffer * (numberOfChannels buffer * 2)"
  let ?view = "replicate ?n (0::nat)"
  have "\<forall>w\<in>set (headerWrites buffer @ sampleWrites buffer). fitsIn (length ?view) w"
    using header_fitsIn [of buffer] sample_fitsIn [of buffer] by (auto intro: fitsIn_mono)
  from runWrites_total [OF this] show ?thesis
    by (simp add: audioBufferToWav_def Let_def mult.assoc)
qed


subsection \<open>Reading back what was written\<close>





subsection \<open>What the encoder leaves in the blob\<close>















subsection \<open>Decoding and the stored integer\<close>









subsection \<open>The round trip\<close>



lemma parseWav_refuses:
  "slice 0 4 blob \<noteq> js ''RIFF'' \<Longrightarrow> parseWav blob = None"
  "slice 8 4 blob \<noteq> js ''WAVE'' \<Longrightarrow> parseWav blob = None"
  "leValue (slice 20 2 blob) \<noteq> 1 \<Longrightarrow> parseWav blob = None"
  "leValue (slice 34 2 blob) \<noteq> 16 \<Longrightarrow> parseWav blob = None"
  by (simp_all add: parseWav_def Let_def)





subsection \<open>Buffers decoded from 16-bit PCM\<close>








section \<open>Failures and the synthesis request\<close>

lemma updateChunk_twice:
  assumes "\<And>c. chunk_id (f c) = chunk_id c"
  shows "updateChunk chunkId g (updateChunk chunkId f prev) = updateChunk chunkId (g \<circ> f) prev"
  using assms by (simp add: updateChunk_def comp_def cong: if_cong)

lemma onlyFailed_update:
  assumes "\<And>c. status (f c) = Error" and "\<And>c. chunk_id (f c) = chunk_id c"
  shows "onlyFailed chunkId state (updateChunk chunkId f state)"
  using assms by (simp add: onlyFailed_def updateChunk_def list_all2_map2 list_all2_same)

lemma generateTTS_no_audio:
  assumes "generateSpeech svc (synthesisRequest text) voiceName = Inr None
         \<or> generateSpeech svc (synthesisRequest text) voiceName = Inr (Some [])"
  shows "generateTTS svc text voiceName = Inl NoAudioData"
  using assms by (auto simp: generateTTS_def)

lemma handleGenerateTTS_failure:
  assumes found: "find (\<lambda>c. chunk_id c = chunkId) (chunks state) = Some chunk"
    and pending: "status chunk \<noteq> Ready"
    and fails: "generationFails svc chunk (selectedVoice state)"
  shows "\<exists>after. handleGenerateTTS svc handlePlay state chunkId autoPlayAfter = (after, False)
           \<and> onlyFailed chunkId state after"
proof (cases "restructureTextWithAI svc (content chunk)")
  case (Inl e)
  have "updateChunk chunkId (\<lambda>c. c\<lparr>status := Error\<rparr>)
          (updateChunk chunkId (\<lambda>c. c\<lparr>status := Analyzing\<rparr>) state)
      = updateChunk chunkId ((\<lambda>c. c\<lparr>status := Error\<rparr>) \<circ> (\<lambda>c. c\<lparr>status := Analyzing\<rparr>)) state"
    by (rule updateChunk_twice) simp
  moreover have "onlyFailed chunkId state
      (updateChunk chunkId ((\<lambda>c. c\<lparr>status := Error\<rparr>) \<circ> (\<lambda>c. c\<lparr>status := Analyzing\<rparr>)) state)"
    by (rule onlyFailed_update) simp_all
  ultimately show ?thesis using found pending Inl
    by (simp add: handleGenerateTTS_def Let_def)
next
  case (Inr restructuredContent)
  with fails obtain e where tts: "generateTTS svc restructuredContent (selectedVoice state) = Inl e"
    by (auto simp: generationFails_def split: sum.splits)
  let ?f = "\<lambda>c::TextChunk. c\<lparr>status := Analyzing\<rparr>"
  let ?g = "\<lambda>c::TextChunk. c\<lparr>content := restructuredContent, status := Generating\<rparr>"
  let ?h = "\<lambda>c::TextChunk. c\<lparr>status := Error\<rparr>"
  have "updateChunk chunkId ?g (updateChunk chunkId ?f state) = updateChunk chunkId (?g \<circ> ?f) state"
    by (rule updateChunk_twice) simp
  moreover have "updateChunk chunkId ?h (updateChunk chunkId (?g \<circ> ?f) state)
      = updateChunk chunkId (?h \<circ> (?g \<circ> ?f)) state"
    by (rule updateChunk_twice) simp
  moreover have "onlyFailed chunkId state (updateChunk chunkId (?h \<circ> (?g \<circ> ?f)) state)"
    by (rule onlyFailed_update) simp_all
  ultimately show ?thesis using found pending Inr tts
    by (simp add: handleGenerateTTS_def Let_def)
qed

text \<open>
  Claim C8. When the answer of the synthesis call holds no audio (none, or an empty string),
  \<open>generateTTS\<close> throws instead of returning a result. When the reflow or the synthesis of a
  section that is found and not yet ready fails, \<open>handleGenerateTTS\<close> returns \<open>false\<close>; in
  the state it leaves, that section has the status \<open>Error\<close> and nothing else differs from
  the state before, neither another section nor another field. The handler returns: the
  failure ends in its \<open>catch\<close>.
\<close>

theorem failures_stay_in_their_section:
  "((generateSpeech svc (synthesisRequest text) voiceName = Inr None
      \<or> generateSpeech svc (synthesisRequest text) voiceName = Inr (Some []))
     \<longrightarrow> generateTTS svc text voiceName = Inl NoAudioData) \<and>
   (find (\<lambda>c. chunk_id c = chunkId) (chunks state) = Some chunk \<and> status chunk \<noteq> Ready \<and>
    generationFails svc chunk (selectedVoice state)
     \<longrightarrow> (\<exists>after. handleGenerateTTS svc handlePlay state chunkId autoPlayAfter = (after, False)
           \<and> onlyFailed chunkId state after))"
  using generateTTS_no_audio [of svc "text" voiceName]
    handleGenerateTTS_failure [of chunkId state chunk svc handlePlay autoPlayAfter]
  by blast

subsection \<open>The synthesis request\<close>

lemma generateTTS_cong:
  assumes "generateSpeech svc' (synthesisRequest text') voiceName
         = generateSpeech svc (synthesisRequest text) voiceName"
    and "atob svc' = atob svc" and "createObjectURL svc' = createObjectURL svc"
  shows "generateTTS svc' text' voiceName = generateTTS svc text voiceName"
proof -
  have d: "decode svc' = decode svc" by (rule ext) (simp add: decode_def assms(2))
  show ?thesis unfolding generateTTS_def assms(1) d assms(3) ..
qed

lemma synthesisRequest_value:
  "synthesisRequest text
     = ttsInstruction @ take 4000 (filter (\<lambda>c. \<not> (c \<le> 0x1F \<or> (0x7F \<le> c \<and> c \<le> 0x9F))) text)"
  by (simp add: synthesisRequest_def removeControl_def isControl_def)

lemma synthesisRequest_cut:
  assumes "4000 \<le> length (removeControl text)"
  shows "synthesisRequest (text @ extra) = synthesisRequest text"
  using assms by (simp add: synthesisRequest_def removeControl_def)

lemma generateTTS_rejected:
  assumes "generateSpeech svc (synthesisRequest text) voiceName = Inl e"
  shows "generateTTS svc text voiceName = Inl e"
  using assms by (simp add: generateTTS_def)

lemma generateTTS_audio:
  assumes "generateSpeech svc (synthesisRequest text) voiceName = Inr (Some base64)"
    and "base64 \<noteq> []" and "atob svc base64 = Inr binary"
    and "decodeAudioData (map (\<lambda>c. c mod 256) binary) 24000 1 = Inr buffer"
  shows "\<exists>blob. audioBufferToWav buffer = Inr blob \<and>
           generateTTS svc text voiceName = Inr (blob, createObjectURL svc blob)"
proof -
  from audioBufferToWav_total [of buffer] obtain blob where blob: "audioBufferToWav buffer = Inr blob"
    by blast
  have "generateTTS svc text voiceName = Inr (blob, createObjectURL svc blob)"
    using assms blob by (simp add: generateTTS_def decode_def)
  with blob show ?thesis by blast
qed

text \<open>
  Claim C9. Let the request be the fixed instruction followed by the first 4000 characters
  of the input without its control characters (U+0000 to U+001F, U+007F to U+009F).
  \<open>generateTTS\<close> sends this request to the synthesis call and nothing else: when the
  service rejects the request, \<open>generateTTS\<close> fails with that very error; when the service
  answers the request with a payload that decodes to 16-bit PCM, \<open>generateTTS\<close> returns the
  WAV blob of that audio; and two services that answer the request alike (and share
  \<open>atob\<close> and \<open>createObjectURL\<close>) give the same result, whatever they answer to other
  requests. The request is never longer than the instruction and 4000 characters, and
  whatever follows the first 4000 kept characters of the input changes neither the request
  nor the result.
\<close>

theorem synthesis_request:
  "(let request = ttsInstruction @
        take 4000 (filter (\<lambda>c. \<not> (c \<le> 0x1F \<or> (0x7F \<le> c \<and> c \<le> 0x9F))) text)
    in (generateSpeech svc request voiceName = Inl e
          \<longrightarrow> generateTTS svc text voiceName = Inl e) \<and>
       (generateSpeech svc request voiceName = Inr (Some base64) \<and> base64 \<noteq> [] \<and>
        atob svc base64 = Inr binary \<and>
        decodeAudioData (map (\<lambda>c. c mod 256) binary) 24000 1 = Inr buffer
          \<longrightarrow> (\<exists>blob. audioBufferToWav buffer = Inr blob \<and>
                 generateTTS svc text voiceName = Inr (blob, createObjectURL svc blob))) \<and>
       (generateSpeech svc' request voiceName = generateSpeech svc request voiceName \<and>
        atob svc' = atob svc \<and> createObjectURL svc' = createObjectURL svc
          \<longrightarrow> generateTTS svc' text voiceName = generateTTS svc text voiceName) \<and>
       length request \<le> length ttsInstruction + 4000 \<and>
       (4000 \<le> length (filter (\<lambda>c. \<not> (c \<le> 0x1F \<or> (0x7F \<le> c \<and> c \<le> 0x9F))) text)
          \<longrightarrow> ttsInstruction @
                take 4000 (filter (\<lambda>c. \<not> (c \<le> 0x1F \<or> (0x7F \<le> c \<and> c \<le> 0x9F))) (text @ extra))
                = request \<and>
              generateTTS svc (text @ extra) voiceName = generateTTS svc text voiceName))"
  unfolding Let_def synthesisRequest_value [symmetric]
proof (intro conjI impI)
  assume "generateSpeech svc (synthesisRequest text) voiceName = Inl e"
  then show "generateTTS svc text voiceName = Inl e" by (rule generateTTS_rejected)
next
  assume "generateSpeech svc (synthesisRequest text) voiceName = Inr (Some base64) \<and> base64 \<noteq> [] \<and>
        atob svc base64 = Inr binary \<and>
        decodeAudioData (map (\<lambda>c. c mod 256) binary) 24000 1 = Inr buffer"
  then show "\<exists>blob. audioBufferToWav buffer = Inr blob \<and>
                 generateTTS svc text voiceName = Inr (blob, createObjectURL svc blob)"
    by (intro generateTTS_audio [of svc "text" voiceName base64 binary]) simp_all
next
  assume "generateSpeech svc' (synthesisRequest text) voiceName
      = generateSpeech svc (synthesisRequest text) voiceName \<and>
    atob svc' = atob svc \<and> createObjectURL svc' = createObjectURL svc"
  then show "generateTTS svc' text voiceName = generateTTS svc text voiceName"
    by (intro generateTTS_cong) simp_all
next
  show "length (synthesisRequest text) \<le> length ttsInstruction + 4000"
    by (simp add: synthesisRequest_def)
next
  assume "4000 \<le> length (filter (\<lambda>c. \<not> (c \<le> 0x1F \<or> (0x7F \<le> c \<and> c \<le> 0x9F))) text)"
  then have long: "4000 \<le> length (removeControl text)"
    by (simp add: removeControl_def isControl_def)
  then show "synthesisRequest (text @ extra) = synthesisRequest text"
    by (rule synthesisRequest_cut)
  show "generateTTS svc (text @ extra) voiceName = generateTTS svc text voiceName"
    by (intro generateTTS_cong) (simp_all add: synthesisRequest_cut [OF long])
qed

section \<open>The examples, evaluated\<close>

lemmas text_defs =
  js_def trim_def isSpace_def isControl_def isDecoration_def removeControl_def
  blankDecoration_def collapseRuns_def flushRun_def straightDouble_def straightSingle_def
  isDelimiter_def pushTrimmed_def

lemma clean_hello: "cleanTextForTTS (js ''Hello.World!!!!'') = js ''Hello. World! !! !''"
  by (simp add: cleanTextForTTS_def text_defs)

lemma clean_ABC: "cleanTextForTTS (js ''A. B. C.'') = js ''A. B. C.''"
  by (simp add: cleanTextForTTS_def text_defs)

lemma segments_ABC:
  "splitSegments [] (js ''A. B. C.'') = [js ''A'', js ''.'', js ''B'', js ''.'', js ''C'', js ''.'', []]"
  by (simp add: text_defs)

lemma loop_ABC:
  "chunkLoop 4 [] [] [js ''A'', js ''.'', js ''B'', js ''.'', js ''C'', js ''.'', []]
     = ([js ''A.B.''], js ''C.'')"
  by (simp add: text_defs)

lemma split_ABC: "splitTextIntoChunks (js ''A. B. C.'') 4 = [js ''A.B.'', js ''C.'']"
  unfolding splitTextIntoChunks_unfold clean_ABC segments_ABC loop_ABC
  by (simp add: text_defs)

text \<open>
  Claim C5, as amended. \<open>splitTextIntoChunks("A. B. C.", 4)\<close> returns the two sections
  \<open>"A.B."\<close> and \<open>"C."\<close>: the split drops the blank behind each full stop, so \<open>"A"\<close>,
  \<open>"."\<close>, \<open>"B"\<close>, \<open>"."\<close> add up to exactly four characters and share a section.
\<close>

theorem split_ABC_sections: "splitTextIntoChunks (js ''A. B. C.'') 4 = [js ''A.B.'', js ''C.'']"
proof -
  have "pushTrimmed [js ''A.B.''] (js ''C.'') = [js ''A.B.'', js ''C.'']"
    by (simp add: text_defs)
  then show ?thesis
    unfolding splitTextIntoChunks_unfold clean_ABC segments_ABC loop_ABC by simp
qed

text \<open>Claim C5 as stated fails: the result is not \<open>["A.", "B.", "C."]\<close>.\<close>

theorem split_ABC_not_three:
  "splitTextIntoChunks (js ''A. B. C.'') 4 \<noteq> [js ''A.'', js ''B.'', js ''C.'']"
  unfolding split_ABC by (simp add: js_def)

lemma clean_two_spaces: "cleanTextForTTS (js ''a.  b'') = js ''a.  b''"
  by (simp add: cleanTextForTTS_def text_defs)

lemma split_two_spaces: "splitTextIntoChunks (js ''a.  b'') 3000 = [js ''a.b'']"
proof -
  have "splitSegments [] (js ''a.  b'') = [js ''a'', js ''.'', js ''b'']"
    by (simp add: text_defs)
  moreover have "chunkLoop 3000 [] [] [js ''a'', js ''.'', js ''b''] = ([], js ''a.b'')"
    by (simp add: text_defs)
  ultimately show ?thesis
    unfolding splitTextIntoChunks_unfold clean_two_spaces by (simp add: text_defs)
qed

text \<open>
  Claim C1 as stated fails: for \<open>"a.  b"\<close> the only section is \<open>"a.b"\<close>. Both blanks behind
  the full stop are gone, so the cleaned text does not come back by restoring a single
  separator per split point.
\<close>

theorem separators_not_single:
  "\<not> dropsSingleSeparators False
       (concat (splitTextIntoChunks (js ''a.  b'') 3000)) (cleanTextForTTS (js ''a.  b''))"
  unfolding split_two_spaces clean_two_spaces by (simp add: text_defs)

text \<open>With one blank behind each delimiter the reading above does hold.\<close>

lemma separators_single_ABC:
  "dropsSingleSeparators False
       (concat (splitTextIntoChunks (js ''A. B. C.'') 4)) (cleanTextForTTS (js ''A. B. C.''))"
  unfolding split_ABC clean_ABC by (simp add: text_defs)

text \<open>
  Claim C4. The claim expects \<open>cleanTextForTTS("Hello.World!!!!")\<close> to be \<open>"Hello. World!!"\<close>.
  The code returns \<open>"Hello. World! !! !"\<close>: the rule that puts a blank behind \<open>!\<close> runs first
  and breaks the run of four into \<open>! !! !\<close>, so the later rule for three or more \<open>!\<close> finds
  nothing to collapse.
\<close>

theorem clean_hello_value:
  "cleanTextForTTS (js ''Hello.World!!!!'') = js ''Hello. World! !! !'' \<and>
   cleanTextForTTS (js ''Hello.World!!!!'') \<noteq> js ''Hello. World!!''"
  unfolding clean_hello by (simp add: js_def)

lemma clean_doubled: "cleanTextForTTS (js ''a..b'') = js ''a. .b''"
  by (simp add: cleanTextForTTS_def text_defs)

lemma clean_doubled_again: "cleanTextForTTS (js ''a. .b'') = js ''a. . b''"
  by (simp add: cleanTextForTTS_def text_defs)

text \<open>
  Claim C3. The claim expects \<open>cleanTextForTTS (cleanTextForTTS x) = cleanTextForTTS x\<close> for
  every \<open>x\<close>. At \<open>"a..b"\<close> the code returns \<open>"a. .b"\<close>, and for that \<open>"a. . b"\<close>: the rule
  \<open>/\.([^\s]|$)/g\<close> that puts a blank behind a period consumes the character behind the
  period as \<open>$1\<close>, so the second period of the pair is passed over and gets its blank only
  in a second pass. It is the defect of claim C4, where the same rule for \<open>!\<close> breaks a
  run of four.
\<close>

theorem clean_not_idempotent:
  "cleanTextForTTS (js ''a..b'') = js ''a. .b'' \<and>
   cleanTextForTTS (cleanTextForTTS (js ''a..b'')) = js ''a. . b'' \<and>
   cleanTextForTTS (cleanTextForTTS (js ''a..b'')) \<noteq> cleanTextForTTS (js ''a..b'')"
  unfolding clean_doubled clean_doubled_again by (simp add: js_def)

subsection \<open>Instances of the general theorems\<close>

lemma clean_long: "cleanTextForTTS (js ''abcdef. x'') = js ''abcdef. x''"
  by (simp add: cleanTextForTTS_def text_defs)

lemma segments_long: "splitSegments [] (js ''abcdef. x'') = [js ''abcdef'', js ''.'', js ''x'']"
  by (simp add: text_defs)

text \<open>Claim C2 at \<open>"abcdef. x"\<close> with a cap of 3: the oversized segment is a section.\<close>

theorem sections_bounded_witness:
  "(0::int) < 3 \<and>
   js ''abcdef'' \<in> set (splitSegments [] (cleanTextForTTS (js ''abcdef. x''))) \<and>
   3 < int (length (js ''abcdef'')) \<and>
   js ''abcdef'' \<in> set (splitTextIntoChunks (js ''abcdef. x'') 3)"
proof -
  have pos: "(0::int) < 3" by simp
  have seg: "js ''abcdef'' \<in> set (splitSegments [] (cleanTextForTTS (js ''abcdef. x'')))"
    unfolding clean_long segments_long by simp
  have big: "3 < int (length (js ''abcdef''))" by (simp add: js_def)
  have tr: "trim (js ''abcdef'') = js ''abcdef''" by (simp add: text_defs)
  have ne: "trim (js ''abcdef'') \<noteq> []" by (simp add: text_defs)
  from sections_bounded [OF pos, of "js ''abcdef. x''"] seg big ne
  have "trim (js ''abcdef'') \<in> set (splitTextIntoChunks (js ''abcdef. x'') 3)" by blast
  with pos seg big tr show ?thesis by simp
qed

lemma clean_blank: "\<forall>ch\<in>set (js ''  ''). isSpace ch"
  by (simp add: text_defs)

text \<open>Claim C10 at \<open>"A. B. C."\<close> and at a blank input.\<close>

theorem sections_trimmed_nonblank_witness:
  "js ''C.'' \<in> set (splitTextIntoChunks (js ''A. B. C.'') 4) \<and>
   js ''C.'' \<noteq> [] \<and> trim (js ''C.'') = js ''C.'' \<and>
   splitTextIntoChunks (js ''  '') 4 = []"
proof -
  have mem: "js ''C.'' \<in> set (splitTextIntoChunks (js ''A. B. C.'') 4)"
    unfolding split_ABC by simp
  from sections_trimmed_nonblank [of "js ''A. B. C.''" 4] mem
  have "js ''C.'' \<noteq> [] \<and> trim (js ''C.'') = js ''C.''" by blast
  moreover from sections_trimmed_nonblank [of "js ''  ''" 4] clean_blank
  have "splitTextIntoChunks (js ''  '') 4 = []" by blast
  ultimately show ?thesis using mem by simp
qed

text \<open>A second pass leaves \<open>"Hi.There, you!"\<close>, once cleaned, as it is.\<close>

lemma clean_idempotent_example:
  "noDoubledMark (removeControl (js ''Hi.There, you!'')) \<and>
   cleanTextForTTS (cleanTextForTTS (js ''Hi.There, you!'')) = cleanTextForTTS (js ''Hi.There, you!'')"
proof -
  have h: "noDoubledMark (removeControl (js ''Hi.There, you!''))"
    by (simp add: noDoubledMark_def removeControl_def isControl_def isMark_def js_def)
  from clean_idempotent_without_doubled_marks [OF h] h show ?thesis by simp
qed

subsection \<open>The encoder and the handler\<close>




lemma example_samples: "sampleWrites exampleBuffer = [(44, [255, 127]), (46, [0, 128])]"
  by (simp add: sampleWrites_def exampleBuffer_def numberOfChannels_def sampleAt_def setInt16_def
      truncToZero_def upt_conv_Cons leBytes_2)

lemma example_encoded:
  "audioBufferToWav exampleBuffer = Inr
     [82, 73, 70, 70, 40, 0, 0, 0, 87, 65, 86, 69, 102, 109, 116, 32, 16, 0, 0, 0, 1, 0, 1, 0,
      192, 93, 0, 0, 128, 187, 0, 0, 2, 0, 16, 0, 100, 97, 116, 97, 4, 0, 0, 0,
      255, 127, 0, 128]"
  unfolding audioBufferToWav_def example_samples Let_def
  by (simp add: exampleBuffer_def numberOfChannels_def writeString_def js_def setUint8_def
      headerWrites_def setUint16_def setUint32_def applyWrite_def upt_conv_Cons
      leBytes_1 leBytes_2 leBytes_4)

text \<open>
  Claim C6. For every buffer the encoder returns a blob of exactly
  \<open>44 + frames * channels * 2\<close> bytes. For two mono frames \<open>[1.0, -1.0]\<close> at 24000 Hz the
  blob has 48 bytes; bytes 44 and 45 are \<open>FF 7F\<close>, the little-endian 32767, and bytes 46 and
  47 are \<open>00 80\<close>, the little-endian -32768.
\<close>

theorem wav_length:
  "(\<exists>blob. audioBufferToWav buffer = Inr blob \<and>
           length blob = 44 + frames buffer * numberOfChannels buffer * 2) \<and>
   (\<exists>blob. audioBufferToWav exampleBuffer = Inr blob \<and> length blob = 48 \<and>
           slice 44 2 blob = [0xFF, 0x7F] \<and> slice 46 2 blob = [0x00, 0x80] \<and>
           signed16 (leValue (slice 44 2 blob)) = 32767 \<and>
           signed16 (leValue (slice 46 2 blob)) = - 32768)"
proof
  show "\<exists>blob. audioBufferToWav buffer = Inr blob \<and>
           length blob = 44 + frames buffer * numberOfChannels buffer * 2"
    by (rule audioBufferToWav_total)
  show "\<exists>blob. audioBufferToWav exampleBuffer = Inr blob \<and> length blob = 48 \<and>
           slice 44 2 blob = [0xFF, 0x7F] \<and> slice 46 2 blob = [0x00, 0x80] \<and>
           signed16 (leValue (slice 44 2 blob)) = 32767 \<and>
           signed16 (leValue (slice 46 2 blob)) = - 32768"
    unfolding example_encoded by (simp add: slice_def leValue_def signed16_def)
qed

lemma decode_pcmExample: "decodeAudioData [0xFF, 0x7F, 0x00, 0x80] 24000 1 = Inr pcmExample"
  by (simp add: decodeAudioData_def pcmExample_def signed16_def upt_conv_Cons)



text \<open>Claim C8 at a service without audio and the first of two sections.\<close>

theorem failures_stay_witness:
  "generateTTS silentService (js ''Hi'') Puck = Inl NoAudioData \<and>
   (\<exists>after. handleGenerateTTS silentService (\<lambda>url i s. s) twoSections (js ''a'') False = (after, False)
      \<and> onlyFailed (js ''a'') twoSections after)"
proof -
  have silent: "generateSpeech silentService (synthesisRequest (js ''Hi'')) Puck = Inr None"
    by (simp add: silentService_def)
  have found: "find (\<lambda>c. chunk_id c = js ''a'') (chunks twoSections) = Some sectionA"
    by (simp add: twoSections_def sectionA_def)
  have pending: "status sectionA \<noteq> Ready" by (simp add: sectionA_def)
  have "restructureTextWithAI silentService (content sectionA) = Inr (content sectionA)"
    by (simp add: restructureTextWithAI_def silentService_def)
  moreover have "generateTTS silentService (content sectionA) (selectedVoice twoSections)
      = Inl NoAudioData"
    by (simp add: generateTTS_def silentService_def)
  ultimately have fails: "generationFails silentService sectionA (selectedVoice twoSections)"
    by (simp add: generationFails_def)
  from failures_stay_in_their_section
    [of silentService "js ''Hi''" Puck "js ''a''" twoSections sectionA "\<lambda>url i s. s" False]
    silent found pending fails
  show ?thesis by blast
qed

text \<open>
  Claim C9 at the probing service. A bell character, 4000 letters and a tail are sent as the
  instruction and the 4000 letters, the one request the service answers: the result is the
  WAV blob of the two samples. A short text is another request, which the service rejects.
\<close>

theorem synthesis_request_witness:
  "generateSpeech probeService (ttsInstruction @ replicate 4000 0x41) Puck = Inr (Some (js ''/38AgA=='')) \<and>
   (\<exists>blob. audioBufferToWav pcmExample = Inr blob \<and>
      generateTTS probeService (0x07 # replicate 4000 0x41) Puck = Inr (blob, js ''blob:wav'') \<and>
      generateTTS probeService ((0x07 # replicate 4000 0x41) @ js ''tail'') Puck
        = Inr (blob, js ''blob:wav'')) \<and>
   generateSpeech probeService (ttsInstruction @ js ''Hi'') Puck = Inl ServiceError \<and>
   generateTTS probeService (js ''Hi'') Puck = Inl ServiceError"
proof -
  let ?keep = "\<lambda>c::nat. \<not> (c \<le> 0x1F \<or> (0x7F \<le> c \<and> c \<le> 0x9F))"
  let ?long = "0x07 # replicate 4000 (0x41::nat)"
  have kept: "filter ?keep ?long = replicate 4000 0x41" by simp
  have request: "ttsInstruction @ take 4000 (filter ?keep ?long) = ttsInstruction @ replicate 4000 0x41"
    unfolding kept by simp
  have answer: "generateSpeech probeService (ttsInstruction @ replicate 4000 0x41) Puck
      = Inr (Some (js ''/38AgA==''))"
    by (simp add: probeService_def)
  have payload: "js ''/38AgA=='' \<noteq> []" by (simp add: js_def)
  have binary: "atob probeService (js ''/38AgA=='') = Inr [0xFF, 0x7F, 0x00, 0x80]"
    by (simp add: probeService_def)
  have pcm: "decodeAudioData (map (\<lambda>c. c mod 256) [0xFF, 0x7F, 0x00, 0x80]) 24000 1 = Inr pcmExample"
    using decode_pcmExample by simp
  have url: "createObjectURL probeService = (\<lambda>blob. js ''blob:wav'')"
    by (simp add: probeService_def)
  have long: "4000 \<le> length (filter ?keep ?long)" unfolding kept by simp
  note long_case = synthesis_request [of "?long" probeService Puck ServiceError "js ''/38AgA==''"
      "[0xFF, 0x7F, 0x00, 0x80]" pcmExample probeService "js ''tail''", unfolded Let_def request]
  from long_case answer payload binary pcm obtain blob where
    blob: "audioBufferToWav pcmExample = Inr blob"
    and result: "generateTTS probeService ?long Puck = Inr (blob, createObjectURL probeService blob)"
    by blast
  from long_case long
  have tail: "generateTTS probeService (?long @ js ''tail'') Puck = generateTTS probeService ?long Puck"
    by blast
  have other: "js ''Hi'' \<noteq> replicate 4000 (0x41::nat)"
  proof
    assume "js ''Hi'' = replicate 4000 (0x41::nat)"
    then have "length (js ''Hi'') = length (replicate 4000 (0x41::nat))" by (rule arg_cong)
    then show False by (simp add: js_def)
  qed
  have short: "ttsInstruction @ take 4000 (filter ?keep (js ''Hi'')) = ttsInstruction @ js ''Hi''"
    by (simp add: js_def)
  have rejected: "generateSpeech probeService (ttsInstruction @ js ''Hi'') Puck = Inl ServiceError"
    using other by (simp add: probeService_def)
  note short_case = synthesis_request [of "js ''Hi''" probeService Puck ServiceError "[]" "[]"
      pcmExample probeService "[]", unfolded Let_def short]
  from short_case rejected have fails: "generateTTS probeService (js ''Hi'') Puck = Inl ServiceError"
    by blast
  from answer blob result tail rejected fails show ?thesis by (simp add: url)
qed

end
